theory Spec2Isabelle
  imports Main "HOL-Library.Word"
begin

section \<open>JavaScript strings\<close>

text \<open>
  A JavaScript string is a sequence of UTF-16 code units. The regular expression of
  \<^verbatim>\<open>optimizeMessagesForTokens\<close> has no \<^verbatim>\<open>u\<close> flag, so it works on code units, and
  so do \<^verbatim>\<open>trim\<close> and \<^verbatim>\<open>includes\<close>.
\<close>

type_synonym jsstring = "16 word list"

type_synonym bytes = "8 word list"

definition js :: "string \<Rightarrow> jsstring" where
  "js s = map of_char s"

definition startsWith :: "jsstring \<Rightarrow> jsstring \<Rightarrow> bool" where
  "startsWith s p = (take (length p) s = p)"

text \<open>\<^verbatim>\<open>String.prototype.includes\<close>: the search string occurs at some position.\<close>

fun includes_str :: "jsstring \<Rightarrow> jsstring \<Rightarrow> bool" where
  "includes_str [] p = startsWith [] p"
| "includes_str (c # cs) p = (startsWith (c # cs) p \<or> includes_str cs p)"

text \<open>
  \<^verbatim>\<open>String.prototype.trim\<close> removes the code units of the ECMAScript productions
  WhiteSpace and LineTerminator from both ends.
\<close>

definition is_white :: "16 word \<Rightarrow> bool" where
  "is_white c \<longleftrightarrow>
     c \<in> {0x0009, 0x000A, 0x000B, 0x000C, 0x000D, 0x0020, 0x00A0, 0x1680,
          0x2028, 0x2029, 0x202F, 0x205F, 0x3000, 0xFEFF}
     \<or> (0x2000 \<le> c \<and> c \<le> 0x200A)"

definition trim :: "jsstring \<Rightarrow> jsstring" where
  "trim s = rev (dropWhile is_white (rev (dropWhile is_white s)))"

subsection \<open>The regular expression of the code-block stripping\<close>

text \<open>
  The pattern is three backticks, then \<^verbatim>\<open>[\s\S]*?\<close> (any code units, as few as
  possible), then three backticks, with the flag \<^verbatim>\<open>g\<close>.
\<close>

definition fence :: jsstring where
  "fence = [0x60, 0x60, 0x60]"

text \<open>
  \<open>lazy_until_fence s\<close> matches \<^verbatim>\<open>[\s\S]*?\<close> followed by the closing delimiter at
  the start of \<open>s\<close>: the lazy quantifier takes no code unit, then one, and so on, until
  the delimiter follows. The result is the number of code units matched.
\<close>

fun lazy_until_fence :: "jsstring \<Rightarrow> nat option" where
  "lazy_until_fence [] = None"
| "lazy_until_fence (c # cs) =
     (if startsWith (c # cs) fence then Some 3
      else map_option Suc (lazy_until_fence cs))"

text \<open>The whole pattern at the start of \<open>s\<close>: the length of the match, if there is one.\<close>

definition match_here :: "jsstring \<Rightarrow> nat option" where
  "match_here s =
     (if startsWith s fence then map_option (\<lambda>n. 3 + n) (lazy_until_fence (drop 3 s))
      else None)"

text \<open>
  \<^verbatim>\<open>content.replace(/.../g, "")\<close>: at each position, from the left, a match is dropped
  and the search goes on behind it; where the pattern does not match, the code unit
  is kept and the search goes on at the next position.
\<close>

function replace_fences :: "jsstring \<Rightarrow> jsstring" where
  "replace_fences [] = []"
| "replace_fences (c # cs) =
     (case match_here (c # cs) of
        Some n \<Rightarrow> replace_fences (drop n (c # cs))
      | None \<Rightarrow> c # replace_fences cs)"
  by pat_completeness auto
termination
proof (relation "measure length")
  show "wf (measure length)" by simp
next
  fix c :: "16 word" and cs :: jsstring and n :: nat
  assume m: "match_here (c # cs) = Some n"
  have "0 < n"
    using m by (auto simp: match_here_def split: if_splits)
  then show "(drop n (c # cs), c # cs) \<in> measure length" by simp
next
  fix c :: "16 word" and cs :: jsstring
  show "(cs, c # cs) \<in> measure length" by simp
qed

section \<open>Messages\<close>

datatype role = System | User | Assistant

record message =
  role :: role
  content :: jsstring

subsection \<open>optimizeMessagesForTokens\<close>

text \<open>
  The loop of lines 12 to 20: \<open>i\<close> runs down from the last index while it is not
  negative and fewer than two indices have been collected.
\<close>

function collect_loop :: "message list \<Rightarrow> int \<Rightarrow> nat list \<Rightarrow> nat list" where
  "collect_loop messages i assistantIndices =
     (if i \<ge> 0 \<and> length assistantIndices < 2
      then collect_loop messages (i - 1)
             (if role (messages ! nat i) = Assistant
              then assistantIndices @ [nat i] else assistantIndices)
      else assistantIndices)"
  by pat_completeness auto
termination
  by (relation "measure (\<lambda>(m, i, a). nat (i + 1))") auto

declare collect_loop.simps [simp del]

definition assistantIndices :: "message list \<Rightarrow> nat list" where
  "assistantIndices messages = collect_loop messages (int (length messages) - 1) []"

definition optimizeMessagesForTokens :: "message list \<Rightarrow> message list" where
  "optimizeMessagesForTokens messages =
     map (\<lambda>(index, msg).
            if role msg = Assistant \<and> index \<notin> set (assistantIndices messages)
            then msg\<lparr>content := trim (replace_fences (content msg))\<rparr>
            else msg)
         (enumerate 0 messages)"

subsection \<open>Length capping\<close>

text \<open>
  \<^verbatim>\<open>xs.slice(-n)\<close> starts at \<open>max (length xs - n) 0\<close>; the subtraction on \<open>nat\<close>
  stops at zero in the same way.
\<close>

definition slice_from_end :: "nat \<Rightarrow> 'a list \<Rightarrow> 'a list" where
  "slice_from_end n xs = drop (length xs - n) xs"

text \<open>Lines 62 to 64. The indices 0, 1 and 2 are read only where the list has more
  than ten entries, so they are in range.\<close>

definition cap_messages :: "'a list \<Rightarrow> 'a list" where
  "cap_messages messages =
     (if length messages > 10
      then [messages ! 0, messages ! 1, messages ! 2] @ slice_from_end 7 messages
      else messages)"

section \<open>The message store and the validation of its rows\<close>

text \<open>
  Modelled from the spec: the message table and its two queries are the database's, not
  this file's. A row has an opaque id, the id of its chat, a position, a role and a
  content; \<open>findUnique\<close> fetches by id, \<open>findMany\<close> fetches the rows of a chat up to a
  position, in ascending order of position.
\<close>

record row =
  row_id :: jsstring
  row_chatId :: jsstring
  row_position :: int
  row_role :: jsstring
  row_content :: jsstring

definition findUnique :: "row list \<Rightarrow> jsstring \<Rightarrow> row option" where
  "findUnique tbl messageId = find (\<lambda>r. row_id r = messageId) tbl"

definition findMany :: "row list \<Rightarrow> jsstring \<Rightarrow> int \<Rightarrow> row list" where
  "findMany tbl chat pos =
     sort_key row_position (filter (\<lambda>r. row_chatId r = chat \<and> row_position r \<le> pos) tbl)"

text \<open>
  Lines 51 to 58: every row must carry one of the three roles; the parsed objects keep
  the role and the content only. A row with another role makes \<^verbatim>\<open>parse\<close> throw.
\<close>

definition parse_role :: "jsstring \<Rightarrow> role option" where
  "parse_role r =
     (if r = js ''system'' then Some System
      else if r = js ''user'' then Some User
      else if r = js ''assistant'' then Some Assistant
      else None)"

datatype zod_error = ZodError

fun parse_rows :: "row list \<Rightarrow> zod_error + message list" where
  "parse_rows [] = Inr []"
| "parse_rows (r # rs) =
     (case parse_role (row_role r) of
        None \<Rightarrow> Inl ZodError
      | Some ro \<Rightarrow>
          (case parse_rows rs of
             Inl err \<Rightarrow> Inl err
           | Inr ms \<Rightarrow> Inr (\<lparr>role = ro, content = row_content r\<rparr> # ms)))"

section \<open>Provider requests\<close>

datatype gemini_role = RoleModel | RoleUser

record gemini_turn =
  turn_role :: gemini_role
  parts :: "jsstring list"

record gemini_request =
  gemini_model :: jsstring
  contents :: "gemini_turn list"
  systemInstruction :: "jsstring option"

text \<open>Lines 71 to 81. \<^verbatim>\<open>find\<close> returns the first system message, and the optional
  chaining gives \<^verbatim>\<open>undefined\<close> (here \<open>None\<close>) where there is none.\<close>

definition gemini_request_of :: "message list \<Rightarrow> gemini_request" where
  "gemini_request_of messages =
     \<lparr>gemini_model = js ''gemini-1.5-pro'',
      contents =
        map (\<lambda>m. \<lparr>turn_role = (if role m = Assistant then RoleModel else RoleUser),
                   parts = [content m]\<rparr>)
            (filter (\<lambda>m. role m \<noteq> System) messages),
      systemInstruction = map_option content (find (\<lambda>m. role m = System) messages)\<rparr>"

text \<open>Lines 120 to 126. The temperature 0.4 is kept in tenths.\<close>

record together_request =
  together_model :: jsstring
  together_messages :: "message list"
  stream :: bool
  temperature_tenths :: nat
  max_tokens :: nat

definition together_request_of :: "jsstring \<Rightarrow> message list \<Rightarrow> together_request" where
  "together_request_of model messages =
     \<lparr>together_model = model,
      together_messages = map (\<lambda>m. \<lparr>role = role m, content = content m\<rparr>) messages,
      stream = True,
      temperature_tenths = 4,
      max_tokens = 9000\<rparr>"

section \<open>Stream translation for Provider A\<close>

subsection \<open>JSON.stringify and TextEncoder\<close>

definition is_high_surrogate :: "16 word \<Rightarrow> bool" where
  "is_high_surrogate c \<longleftrightarrow> 0xD800 \<le> c \<and> c \<le> 0xDBFF"

definition is_low_surrogate :: "16 word \<Rightarrow> bool" where
  "is_low_surrogate c \<longleftrightarrow> 0xDC00 \<le> c \<and> c \<le> 0xDFFF"

definition hex_digit :: "nat \<Rightarrow> 16 word" where
  "hex_digit d = (if d < 10 then of_nat (0x30 + d) else of_nat (0x61 + (d - 10)))"

definition unicode_escape :: "16 word \<Rightarrow> jsstring" where
  "unicode_escape c =
     [0x5C, 0x75, hex_digit (unat c div 4096 mod 16), hex_digit (unat c div 256 mod 16),
      hex_digit (unat c div 16 mod 16), hex_digit (unat c mod 16)]"

text \<open>
  QuoteJSONString of ECMAScript: the short escapes, \<^verbatim>\<open>\uXXXX\<close> for the other control
  characters and for a surrogate that has no partner, every other code unit as it is.
\<close>

fun quote_units :: "jsstring \<Rightarrow> jsstring" where
  "quote_units [] = []"
| "quote_units (c # cs) =
     (if c = 0x08 then [0x5C, 0x62] @ quote_units cs
      else if c = 0x09 then [0x5C, 0x74] @ quote_units cs
      else if c = 0x0A then [0x5C, 0x6E] @ quote_units cs
      else if c = 0x0C then [0x5C, 0x66] @ quote_units cs
      else if c = 0x0D then [0x5C, 0x72] @ quote_units cs
      else if c = 0x22 then [0x5C, 0x22] @ quote_units cs
      else if c = 0x5C then [0x5C, 0x5C] @ quote_units cs
      else if c < 0x20 then unicode_escape c @ quote_units cs
      else if is_high_surrogate c then
        (case cs of
           [] \<Rightarrow> unicode_escape c
         | d # ds \<Rightarrow>
             if is_low_surrogate d then c # d # quote_units ds
             else unicode_escape c @ quote_units cs)
      else if is_low_surrogate c then unicode_escape c @ quote_units cs
      else c # quote_units cs)"

definition quoteJSONString :: "jsstring \<Rightarrow> jsstring" where
  "quoteJSONString s = [0x22] @ quote_units s @ [0x22]"

text \<open>The values the payload is built from: strings, arrays and objects.\<close>

datatype json = JString jsstring | JArray "json list" | JObject "(jsstring \<times> json) list"

fun join_comma :: "jsstring list \<Rightarrow> jsstring" where
  "join_comma [] = []"
| "join_comma [x] = x"
| "join_comma (x # y # ys) = x @ [0x2C] @ join_comma (y # ys)"

fun JSON_stringify :: "json \<Rightarrow> jsstring" where
  "JSON_stringify (JString s) = quoteJSONString s"
| "JSON_stringify (JArray vs) = [0x5B] @ join_comma (map JSON_stringify vs) @ [0x5D]"
| "JSON_stringify (JObject kvs) =
     [0x7B] @ join_comma (map (\<lambda>(k, v). quoteJSONString k @ [0x3A] @ JSON_stringify v) kvs)
     @ [0x7D]"

text \<open>UTF-8 of one code point.\<close>

definition utf8_code_point :: "nat \<Rightarrow> bytes" where
  "utf8_code_point n =
     (if n < 0x80 then [of_nat n]
      else if n < 0x800 then [of_nat (0xC0 + n div 64), of_nat (0x80 + n mod 64)]
      else if n < 0x10000 then
        [of_nat (0xE0 + n div 4096), of_nat (0x80 + n div 64 mod 64), of_nat (0x80 + n mod 64)]
      else
        [of_nat (0xF0 + n div 262144), of_nat (0x80 + n div 4096 mod 64),
         of_nat (0x80 + n div 64 mod 64), of_nat (0x80 + n mod 64)])"

text \<open>
  \<^verbatim>\<open>TextEncoder.encode\<close>: a surrogate pair is one code point, a surrogate with no
  partner becomes U+FFFD.
\<close>

fun encode :: "jsstring \<Rightarrow> bytes" where
  "encode [] = []"
| "encode (c # cs) =
     (if is_high_surrogate c then
        (case cs of
           [] \<Rightarrow> utf8_code_point 0xFFFD
         | d # ds \<Rightarrow>
             if is_low_surrogate d
             then utf8_code_point (0x10000 + (unat c - 0xD800) * 0x400 + (unat d - 0xDC00))
                  @ encode ds
             else utf8_code_point 0xFFFD @ encode cs)
      else if is_low_surrogate c then utf8_code_point 0xFFFD @ encode cs
      else utf8_code_point (unat c) @ encode cs)"

subsection \<open>The controller of the outgoing stream\<close>

text \<open>
  The controller is the sequence of the calls made on it, in order: \<^verbatim>\<open>enqueue\<close>,
  \<^verbatim>\<open>close\<close> and \<^verbatim>\<open>error\<close>.
\<close>

datatype 'e controller_call = Enqueue bytes | Close | Error 'e

type_synonym 'e controller = "'e controller_call list"

text \<open>
  What the calls do to the stream, after the Streams standard. The stream has a queue of
  the chunks that were enqueued and not yet read. \<^verbatim>\<open>enqueue\<close> hands the chunk to a read
  that is waiting, or else appends it to the queue. \<^verbatim>\<open>close\<close> keeps the queue: the
  stream is closed once the queue is (or has become) empty. \<^verbatim>\<open>error\<close> empties the queue
  and puts the stream into the error state. A \<^verbatim>\<open>read\<close> of the client takes the first
  chunk of the queue, or waits where the queue is empty. \<^verbatim>\<open>enqueue\<close> and \<^verbatim>\<open>close\<close> throw a
  TypeError on a stream that is not readable or is about to close; such calls are
  counted.
\<close>

datatype 'e stream_state = Readable | Closed | Errored 'e

record 'e readable_stream =
  rs_state :: "'e stream_state"
  rs_queue :: "bytes list"
  rs_close_requested :: bool
  rs_pending_reads :: nat
  rs_delivered :: "bytes list"
  rs_type_errors :: nat

definition new_stream :: "'e readable_stream" where
  "new_stream =
     \<lparr>rs_state = Readable, rs_queue = [], rs_close_requested = False, rs_pending_reads = 0,
      rs_delivered = [], rs_type_errors = 0\<rparr>"

definition can_close_or_enqueue :: "'e readable_stream \<Rightarrow> bool" where
  "can_close_or_enqueue s \<longleftrightarrow> \<not> rs_close_requested s \<and> rs_state s = Readable"

definition controller_enqueue :: "bytes \<Rightarrow> 'e readable_stream \<Rightarrow> 'e readable_stream" where
  "controller_enqueue chunk s =
     (if \<not> can_close_or_enqueue s then s\<lparr>rs_type_errors := Suc (rs_type_errors s)\<rparr>
      else if 0 < rs_pending_reads s
      then s\<lparr>rs_pending_reads := rs_pending_reads s - 1,
              rs_delivered := rs_delivered s @ [chunk]\<rparr>
      else s\<lparr>rs_queue := rs_queue s @ [chunk]\<rparr>)"

definition controller_close :: "'e readable_stream \<Rightarrow> 'e readable_stream" where
  "controller_close s =
     (if \<not> can_close_or_enqueue s then s\<lparr>rs_type_errors := Suc (rs_type_errors s)\<rparr>
      else if rs_queue s = []
      then s\<lparr>rs_close_requested := True, rs_state := Closed, rs_pending_reads := 0\<rparr>
      else s\<lparr>rs_close_requested := True\<rparr>)"

definition controller_error :: "'e \<Rightarrow> 'e readable_stream \<Rightarrow> 'e readable_stream" where
  "controller_error e s =
     (if rs_state s \<noteq> Readable then s
      else s\<lparr>rs_queue := [], rs_state := Errored e, rs_pending_reads := 0\<rparr>)"

definition reader_read :: "'e readable_stream \<Rightarrow> 'e readable_stream" where
  "reader_read s =
     (if rs_state s \<noteq> Readable then s
      else case rs_queue s of
             [] \<Rightarrow> s\<lparr>rs_pending_reads := Suc (rs_pending_reads s)\<rparr>
           | chunk # rest \<Rightarrow>
               if rs_close_requested s \<and> rest = []
               then s\<lparr>rs_queue := rest, rs_delivered := rs_delivered s @ [chunk],
                       rs_state := Closed\<rparr>
               else s\<lparr>rs_queue := rest, rs_delivered := rs_delivered s @ [chunk]\<rparr>)"

text \<open>
  A run of the stream: the calls of the controller and the reads of the client, in the
  order in which they happen.
\<close>

datatype 'e stream_event = ControllerCall "'e controller_call" | ClientRead

fun stream_step :: "'e readable_stream \<Rightarrow> 'e stream_event \<Rightarrow> 'e readable_stream" where
  "stream_step s (ControllerCall (Enqueue chunk)) = controller_enqueue chunk s"
| "stream_step s (ControllerCall Close) = controller_close s"
| "stream_step s (ControllerCall (Error e)) = controller_error e s"
| "stream_step s ClientRead = reader_read s"

definition run_stream :: "'e stream_event list \<Rightarrow> 'e readable_stream" where
  "run_stream events = foldl stream_step new_stream events"

fun controller_calls_of :: "'e stream_event list \<Rightarrow> 'e controller_call list" where
  "controller_calls_of [] = []"
| "controller_calls_of (ControllerCall c # events) = c # controller_calls_of events"
| "controller_calls_of (ClientRead # events) = controller_calls_of events"

text \<open>The client reads all that is queued.\<close>

definition read_all :: "'e readable_stream \<Rightarrow> 'e readable_stream" where
  "read_all s = (reader_read ^^ length (rs_queue s)) s"

text \<open>
  The state the stream ends in: after the calls of the controller, when the client has
  read what the queue holds.
\<close>

definition stream_state_of :: "'e controller \<Rightarrow> 'e stream_state" where
  "stream_state_of ctl = rs_state (read_all (run_stream (map ControllerCall ctl)))"

text \<open>
  The lazy sequence of Provider A: it yields a chunk and goes on, or ends, or raises.
  A chunk is given by what its \<^verbatim>\<open>text()\<close> returns.
\<close>

datatype 'e upstream = StreamEnd | StreamChunk jsstring "'e upstream" | StreamThrow 'e

definition payload :: "jsstring \<Rightarrow> json" where
  "payload text =
     JObject [(js ''choices'',
       JArray [JObject [(js ''delta'', JObject [(js ''content'', JString text)])]])]"

definition sse_event :: "jsstring \<Rightarrow> jsstring" where
  "sse_event text = js ''data: '' @ JSON_stringify (payload text) @ [0x0A, 0x0A]"

definition done_event :: jsstring where
  "done_event = js ''data: [DONE]'' @ [0x0A, 0x0A]"

text \<open>
  The loop of lines 87 to 97, inside \<^verbatim>\<open>try\<close>: the result is the controller and the
  error that left the loop, if one did. An empty text is falsy and enqueues nothing.
\<close>

fun for_await :: "'e upstream \<Rightarrow> 'e controller \<Rightarrow> 'e controller \<times> 'e option" where
  "for_await StreamEnd controller = (controller, None)"
| "for_await (StreamThrow err) controller = (controller, Some err)"
| "for_await (StreamChunk text rest) controller =
     for_await rest
       (if text \<noteq> [] then controller @ [Enqueue (encode (sse_event text))] else controller)"

text \<open>Lines 85 to 103: \<^verbatim>\<open>start(controller)\<close>.\<close>

definition start :: "'e upstream \<Rightarrow> 'e controller \<Rightarrow> 'e controller" where
  "start result_stream controller =
     (case for_await result_stream controller of
        (controller', None) \<Rightarrow> controller' @ [Enqueue (encode done_event), Close]
      | (controller', Some err) \<Rightarrow> controller' @ [Error err])"

section \<open>The handler\<close>

text \<open>What leaves the handler as an exception: the error of the validation, or the
  error a provider rejects the call with.\<close>

datatype 'e fault = Invalid zod_error | Rejected 'e

record request =
  messageId :: jsstring
  model :: jsstring

text \<open>
  What the handler works with: the message table, and the two providers, each a
  function from the request it is sent to what it answers (or the error it rejects
  with). Provider B's stream is forwarded as it is, so its type is left open.
\<close>

record ('e, 'b) world =
  messageTable :: "row list"
  generateContentStream :: "gemini_request \<Rightarrow> 'e + 'e upstream"
  completionsCreate :: "together_request \<Rightarrow> 'e + 'b"

text \<open>The calls the handler makes on its collaborators, in order.\<close>

datatype call =
    DbFindUnique jsstring
  | DbFindMany jsstring int
  | CallProviderA gemini_request
  | CallProviderB together_request

datatype ('e, 'b) body = NullBody | TranslatedStream "'e controller" | ForwardedStream 'b

record ('e, 'b) response =
  status :: nat
  contentType :: "jsstring option"
  body :: "('e, 'b) body"

definition POST :: "('e, 'b) world \<Rightarrow> request \<Rightarrow> call list \<times> ('e fault + ('e, 'b) response)" where
  "POST w req =
     (case findUnique (messageTable w) (messageId req) of
        None \<Rightarrow>
          ([DbFindUnique (messageId req)],
           Inr \<lparr>status = 404, contentType = None, body = NullBody\<rparr>)
      | Some message \<Rightarrow>
          (let messagesRes = findMany (messageTable w) (row_chatId message) (row_position message);
               db = [DbFindUnique (messageId req),
                     DbFindMany (row_chatId message) (row_position message)]
           in case parse_rows messagesRes of
                Inl err \<Rightarrow> (db, Inl (Invalid err))
              | Inr parsed \<Rightarrow>
                  (let messages = cap_messages (optimizeMessagesForTokens parsed)
                   in if includes_str (model req) (js ''gemini'')
                      then
                        (let greq = gemini_request_of messages
                         in case generateContentStream w greq of
                              Inl err \<Rightarrow> (db @ [CallProviderA greq], Inl (Rejected err))
                            | Inr result_stream \<Rightarrow>
                                (db @ [CallProviderA greq],
                                 Inr \<lparr>status = 200,
                                      contentType = Some (js ''text/event-stream''),
                                      body = TranslatedStream (start result_stream [])\<rparr>))
                      else
                        (let treq = together_request_of (model req) messages
                         in case completionsCreate w treq of
                              Inl err \<Rightarrow> (db @ [CallProviderB treq], Inl (Rejected err))
                            | Inr res \<Rightarrow>
                                (db @ [CallProviderB treq],
                                 Inr \<lparr>status = 200, contentType = None,
                                      body = ForwardedStream res\<rparr>)))))"

text \<open>The provider calls of a trace.\<close>

fun provider_a_calls :: "call list \<Rightarrow> gemini_request list" where
  "provider_a_calls [] = []"
| "provider_a_calls (CallProviderA r # cs) = r # provider_a_calls cs"
| "provider_a_calls (c # cs) = provider_a_calls cs"

fun provider_b_calls :: "call list \<Rightarrow> together_request list" where
  "provider_b_calls [] = []"
| "provider_b_calls (CallProviderB r # cs) = r # provider_b_calls cs"
| "provider_b_calls (c # cs) = provider_b_calls cs"

fun history_queries :: "call list \<Rightarrow> (jsstring \<times> int) list" where
  "history_queries [] = []"
| "history_queries (DbFindMany c p # cs) = (c, p) # history_queries cs"
| "history_queries (c # cs) = history_queries cs"

section \<open>Notions of the specification\<close>

text \<open>
  A removable span starts somewhere in \<open>s\<close>: the pattern matches at some position.
  Lemma \<open>has_match_iff\<close> below says what that means: \<open>s\<close> holds a delimiter, any code
  units, and a delimiter again.
\<close>

fun has_match :: "jsstring \<Rightarrow> bool" where
  "has_match [] = False"
| "has_match (c # cs) = (match_here (c # cs) \<noteq> None \<or> has_match cs)"

text \<open>
  The message at index \<open>i\<close> is one of the two most recent assistant messages: it is an
  assistant message and fewer than two assistant messages come after it.
\<close>

definition among_two_latest_assistants :: "message list \<Rightarrow> nat \<Rightarrow> bool" where
  "among_two_latest_assistants ms i \<longleftrightarrow>
     i < length ms \<and> role (ms ! i) = Assistant \<and>
     length (filter (\<lambda>m. role m = Assistant) (drop (Suc i) ms)) < 2"

text \<open>The last \<open>n\<close> entries of a list, in the words of the specification.\<close>

definition last_entries :: "nat \<Rightarrow> 'a list \<Rightarrow> 'a list" where
  "last_entries n xs = rev (take n (rev xs))"

text \<open>The texts of the chunks an upstream sequence yields, and the error it raises.\<close>

fun chunk_texts :: "'e upstream \<Rightarrow> jsstring list" where
  "chunk_texts StreamEnd = []"
| "chunk_texts (StreamThrow err) = []"
| "chunk_texts (StreamChunk text rest) = text # chunk_texts rest"

fun raised :: "'e upstream \<Rightarrow> 'e option" where
  "raised StreamEnd = None"
| "raised (StreamThrow err) = Some err"
| "raised (StreamChunk text rest) = raised rest"

section \<open>Example inputs\<close>

text \<open>Histories on which the theorems below are run.\<close>

definition witness_history :: "message list" where
  "witness_history =
     [\<lparr>role = Assistant, content = js '' x ```co\<newline>de``` y ''\<rparr>,
      \<lparr>role = User, content = js ''q''\<rparr>,
      \<lparr>role = Assistant, content = js ''```k```''\<rparr>,
      \<lparr>role = Assistant, content = js ''z''\<rparr>]"

definition example_history :: "message list" where
  "example_history =
     [\<lparr>role = System, content = js ''sys''\<rparr>,
      \<lparr>role = User, content = js ''hi''\<rparr>,
      \<lparr>role = Assistant, content = js ''```a```''\<rparr>,
      \<lparr>role = Assistant, content = js ''```b```''\<rparr>,
      \<lparr>role = Assistant, content = js ''```c```''\<rparr>]"

definition twelve_messages :: "message list" where
  "twelve_messages =
     map (\<lambda>k. \<lparr>role = (if k = 0 then System else if odd k then User else Assistant),
                content = js ''```x```'' @ [of_nat (0x61 + k)]\<rparr>) [0 ..< 12]"

definition example_table :: "row list" where
  "example_table =
     [\<lparr>row_id = js ''m2'', row_chatId = js ''c1'', row_position = 2,
       row_role = js ''assistant'', row_content = js ''```a```''\<rparr>,
      \<lparr>row_id = js ''x0'', row_chatId = js ''c2'', row_position = 0,
       row_role = js ''user'', row_content = js ''other chat''\<rparr>,
      \<lparr>row_id = js ''m0'', row_chatId = js ''c1'', row_position = 0,
       row_role = js ''system'', row_content = js ''sys''\<rparr>,
      \<lparr>row_id = js ''m1'', row_chatId = js ''c1'', row_position = 1,
       row_role = js ''user'', row_content = js ''hi''\<rparr>,
      \<lparr>row_id = js ''m4'', row_chatId = js ''c1'', row_position = 4,
       row_role = js ''assistant'', row_content = js ''```c```''\<rparr>,
      \<lparr>row_id = js ''m3'', row_chatId = js ''c1'', row_position = 3,
       row_role = js ''assistant'', row_content = js ''```b```''\<rparr>,
      \<lparr>row_id = js ''m5'', row_chatId = js ''c1'', row_position = 5,
       row_role = js ''user'', row_content = js ''later''\<rparr>]"

definition example_world :: "(nat, bytes list) world" where
  "example_world =
     \<lparr>messageTable = example_table,
      generateContentStream =
        (\<lambda>r. Inr (StreamChunk (js ''He'') (StreamChunk (js ''llo'') StreamEnd))),
      completionsCreate = (\<lambda>r. Inr [])\<rparr>"

definition two_system_messages :: "message list" where
  "two_system_messages =
     [\<lparr>role = User, content = js ''u''\<rparr>,
      \<lparr>role = System, content = js ''first''\<rparr>,
      \<lparr>role = Assistant, content = js ''a''\<rparr>,
      \<lparr>role = System, content = js ''second''\<rparr>]"

text \<open>Upstream sequences that raise, and a run in which the client reads between two
  chunks.\<close>

definition he_then_error :: "nat upstream" where
  "he_then_error = StreamChunk (js ''He'') (StreamThrow 7)"

definition he_llo_then_error :: "nat upstream" where
  "he_llo_then_error = StreamChunk (js ''He'') (StreamChunk (js ''llo'') (StreamThrow 7))"

definition read_between :: "nat stream_event list" where
  "read_between =
     [ControllerCall (Enqueue (encode (sse_event (js ''He'')))), ClientRead,
      ControllerCall (Enqueue (encode (sse_event (js ''llo''))))]"

section \<open>The regular expression: no span is left, and a second pass changes nothing\<close>

lemma replace_fences_no_match: "\<not> has_match s \<Longrightarrow> replace_fences s = s"
  by (induction s) auto

lemma lazy_None_drop: "lazy_until_fence s = None \<Longrightarrow> lazy_until_fence (drop n s) = None"
proof (induction s arbitrary: n)
  case Nil then show ?case by simp
next
  case (Cons c cs)
  then show ?case by (cases n) (auto split: if_splits)
qed

lemma lazy_None_no_match: "lazy_until_fence s = None \<Longrightarrow> \<not> has_match s"
proof (induction s)
  case Nil then show ?case by simp
next
  case (Cons c cs)
  from Cons.prems have "lazy_until_fence (drop 3 (c # cs)) = None" by (rule lazy_None_drop)
  moreover from Cons.prems have "lazy_until_fence cs = None" by (auto split: if_splits)
  ultimately show ?case using Cons.IH by (simp add: match_here_def)
qed

lemma lazy_Cons_Some: "lazy_until_fence t \<noteq> None \<Longrightarrow> lazy_until_fence (x # t) \<noteq> None"
  by auto

lemma startsWith_fence_iff: "startsWith s fence \<longleftrightarrow> (\<exists>t. s = 0x60 # 0x60 # 0x60 # t)"
  apply (cases s; simp add: startsWith_def fence_def)
  subgoal for a s1 apply (cases s1; simp)
    subgoal for b s2 by (cases s2; auto) done
  done

lemma match_here_Cons_tick:
  "match_here cs \<noteq> None \<Longrightarrow> match_here (0x60 # cs) \<noteq> None"
  by (auto simp: match_here_def startsWith_fence_iff split: if_splits)

lemma match_here_None_fence:
  "match_here (0x60 # 0x60 # 0x60 # t) = None \<Longrightarrow> lazy_until_fence t = None"
  by (auto simp: match_here_def startsWith_fence_iff split: if_splits)

lemma replace_fences_head:
  assumes "replace_fences cs = x # r" and "match_here cs = None"
  shows "\<exists>t. cs = x # t \<and> replace_fences t = r"
  using assms by (cases cs) auto

lemma replace_fences_sound: "\<not> has_match (replace_fences s)"
proof (induction s rule: replace_fences.induct)
  case 1 show ?case by simp
next
  case (2 c cs)
  show ?case
  proof (cases "match_here (c # cs)")
    case (Some n)
    with 2 show ?thesis by simp
  next
    case None
    with 2 have ih: "\<not> has_match (replace_fences cs)" by simp
    have "match_here (c # replace_fences cs) = None"
    proof (rule ccontr)
      assume m: "match_here (c # replace_fences cs) \<noteq> None"
      then obtain u where u: "c = 0x60" "replace_fences cs = 0x60 # 0x60 # u"
        and lu: "lazy_until_fence u \<noteq> None"
        by (auto simp: match_here_def startsWith_fence_iff split: if_splits)
      from None u have m1: "match_here cs = None"
        using match_here_Cons_tick by blast
      from replace_fences_head[OF u(2) m1] obtain ds where
        ds: "cs = 0x60 # ds" "replace_fences ds = 0x60 # u" by blast
      from None u ds have m2: "match_here ds = None"
        using match_here_Cons_tick by blast
      from replace_fences_head[OF ds(2) m2] obtain es where
        es: "ds = 0x60 # es" "replace_fences es = u" by blast
      from None u ds es have "lazy_until_fence es = None"
        using match_here_None_fence by blast
      then have "lazy_until_fence es = None" "replace_fences es = es"
        using lazy_None_no_match replace_fences_no_match by blast+
      with es lu show False by simp
    qed
    with None ih show ?thesis by simp
  qed
qed

lemma replace_fences_idem: "replace_fences (replace_fences s) = replace_fences s"
  by (simp add: replace_fences_no_match replace_fences_sound)

lemma has_match_append2: "has_match b \<Longrightarrow> has_match (a @ b)"
proof (induction a)
  case Nil then show ?case by simp
next
  case (Cons x a) then show ?case by simp
qed

lemma lazy_append: "lazy_until_fence a \<noteq> None \<Longrightarrow> lazy_until_fence (a @ b) \<noteq> None"
  by (induction a) (auto simp: startsWith_fence_iff split: if_splits)

lemma match_here_append:
  assumes "match_here a \<noteq> None"
  shows "match_here (a @ b) \<noteq> None"
proof -
  from assms obtain t where t: "a = 0x60 # 0x60 # 0x60 # t" "lazy_until_fence t \<noteq> None"
    by (auto simp: match_here_def startsWith_fence_iff split: if_splits)
  from t(2) have "lazy_until_fence (t @ b) \<noteq> None" by (rule lazy_append)
  with t(1) show ?thesis by (simp add: match_here_def startsWith_fence_iff)
qed

lemma has_match_append1: "has_match a \<Longrightarrow> has_match (a @ b)"
proof (induction a)
  case Nil then show ?case by simp
next
  case (Cons x a)
  then show ?case using match_here_append[of "x # a" b] by auto
qed

lemma lazy_fence_append: "lazy_until_fence (mid @ fence @ ss) \<noteq> None"
  by (induction mid) (auto simp: fence_def startsWith_def)

lemma has_match_span: "has_match (ps @ fence @ mid @ fence @ ss)"
proof -
  have "match_here (fence @ mid @ fence @ ss) \<noteq> None"
    using lazy_fence_append[of mid ss] by (simp add: match_here_def startsWith_def fence_def)
  then have "has_match (fence @ mid @ fence @ ss)" by (simp add: fence_def)
  then show ?thesis by (rule has_match_append2)
qed

lemma startsWith_iff: "startsWith s p \<longleftrightarrow> (\<exists>t. s = p @ t)"
proof
  assume "startsWith s p"
  then have "s = p @ drop (length p) s"
    unfolding startsWith_def by (metis append_take_drop_id)
  then show "\<exists>t. s = p @ t" ..
next
  assume "\<exists>t. s = p @ t"
  then show "startsWith s p" by (auto simp: startsWith_def)
qed

lemma lazy_Some_split:
  "lazy_until_fence s = Some n \<Longrightarrow> \<exists>mid ss. s = mid @ fence @ ss \<and> n = length mid + 3"
proof (induction s arbitrary: n)
  case Nil then show ?case by simp
next
  case (Cons c cs)
  show ?case
  proof (cases "startsWith (c # cs) fence")
    case True
    then obtain t where "c # cs = fence @ t" unfolding startsWith_iff by auto
    moreover from True Cons.prems have "n = 3" by simp
    ultimately show ?thesis by (rule_tac x="[]" in exI, rule_tac x=t in exI) simp
  next
    case False
    with Cons.prems obtain m where m: "lazy_until_fence cs = Some m" "n = Suc m" by auto
    from Cons.IH[OF m(1)] obtain mid ss where "cs = mid @ fence @ ss" "m = length mid + 3" by blast
    with m show ?thesis by (rule_tac x="c # mid" in exI, rule_tac x=ss in exI) simp
  qed
qed

lemma has_match_iff:
  "has_match s \<longleftrightarrow> (\<exists>ps mid ss. s = ps @ fence @ mid @ fence @ ss)"
proof
  assume "has_match s"
  then show "\<exists>ps mid ss. s = ps @ fence @ mid @ fence @ ss"
  proof (induction s)
    case Nil then show ?case by simp
  next
    case (Cons c cs)
    show ?case
    proof (cases "match_here (c # cs) = None")
      case True
      with Cons obtain ps mid ss where "cs = ps @ fence @ mid @ fence @ ss" by auto
      then show ?thesis by (rule_tac x="c # ps" in exI, rule_tac x=mid in exI, rule_tac x=ss in exI) simp
    next
      case False
      then have "startsWith (c # cs) fence" "lazy_until_fence (drop 3 (c # cs)) \<noteq> None"
        by (auto simp: match_here_def split: if_splits)
      then obtain t n where t: "c # cs = fence @ t" "lazy_until_fence t = Some n"
        unfolding startsWith_iff by (auto simp: fence_def)
      from lazy_Some_split[OF t(2)] obtain mid ss where "t = mid @ fence @ ss" by blast
      with t show ?thesis by (rule_tac x="[]" in exI, rule_tac x=mid in exI, rule_tac x=ss in exI) simp
    qed
  qed
next
  assume "\<exists>ps mid ss. s = ps @ fence @ mid @ fence @ ss"
  then show "has_match s" using has_match_span by blast
qed

subsection \<open>The replacement, span by span\<close>

text \<open>
  \<open>lazy_until_fence s = Some n\<close> says that the first delimiter of \<open>s\<close> ends at \<open>n\<close>. If
  another delimiter follows it, ending \<open>m\<close> code units later, the replacement drops the
  span from the first delimiter to the end of the second and goes on behind it. If none
  follows, or if \<open>s\<close> has no delimiter at all, the replacement returns \<open>s\<close>.
\<close>

lemma lazy_until_fence_ge: "lazy_until_fence s = Some n \<Longrightarrow> 3 \<le> n"
  by (induction s arbitrary: n) (auto split: if_splits)

lemma replace_fences_first_span:
  assumes "lazy_until_fence s = Some n" and "lazy_until_fence (drop n s) = Some m"
  shows "replace_fences s = take (n - 3) s @ replace_fences (drop (n + m) s)"
  using assms
proof (induction s arbitrary: n)
  case Nil
  then show ?case by simp
next
  case (Cons c cs)
  show ?case
  proof (cases "startsWith (c # cs) fence")
    case True
    with Cons.prems have n: "n = 3" by simp
    with Cons.prems True have "match_here (c # cs) = Some (3 + m)"
      by (simp add: match_here_def)
    with n show ?thesis by simp
  next
    case False
    with Cons.prems obtain n' where n': "lazy_until_fence cs = Some n'" "n = Suc n'" by auto
    from n'(1) have ge: "3 \<le> n'" by (rule lazy_until_fence_ge)
    from Cons.prems(2) n'(2) have "lazy_until_fence (drop n' cs) = Some m" by simp
    from Cons.IH [OF n'(1) this]
    have ih: "replace_fences cs = take (n' - 3) cs @ replace_fences (drop (n' + m) cs)" .
    from False have "match_here (c # cs) = None" by (simp add: match_here_def)
    then have "replace_fences (c # cs) = c # replace_fences cs" by simp
    also have "\<dots> = take (n - 3) (c # cs) @ replace_fences (drop (n + m) (c # cs))"
    proof -
      from ge n'(2) have "n - 3 = Suc (n' - 3)" by simp
      with ih n'(2) show ?thesis by simp
    qed
    finally show ?thesis .
  qed
qed

lemma lazy_None_after_no_match:
  "lazy_until_fence (drop k s) = None \<Longrightarrow> k \<le> 3 \<Longrightarrow> \<not> has_match s"
proof (induction s arbitrary: k)
  case Nil
  then show ?case by simp
next
  case (Cons c cs)
  have "lazy_until_fence (drop (3 - k) (drop k (c # cs))) = None"
    using Cons.prems(1) by (rule lazy_None_drop)
  with Cons.prems(2) have m: "match_here (c # cs) = None"
    by (simp add: match_here_def)
  have "\<not> has_match cs"
  proof (cases k)
    case 0
    with Cons.prems(1) have "lazy_until_fence (drop 0 cs) = None" by (auto split: if_splits)
    then show ?thesis by (rule Cons.IH) simp
  next
    case (Suc k')
    with Cons.prems have "lazy_until_fence (drop k' cs) = None" "k' \<le> 3" by simp_all
    then show ?thesis by (rule Cons.IH)
  qed
  with m show ?case by simp
qed

lemma replace_fences_unclosed:
  assumes "lazy_until_fence s = Some n" and "lazy_until_fence (drop n s) = None"
  shows "replace_fences s = s"
  using assms
proof (induction s arbitrary: n)
  case Nil
  then show ?case by simp
next
  case (Cons c cs)
  show ?case
  proof (cases "startsWith (c # cs) fence")
    case True
    with Cons.prems have "n = 3" by simp
    with Cons.prems have "lazy_until_fence (drop 3 (c # cs)) = None" by simp
    then have "\<not> has_match (c # cs)" by (rule lazy_None_after_no_match) simp
    then show ?thesis by (rule replace_fences_no_match)
  next
    case False
    with Cons.prems obtain n' where n': "lazy_until_fence cs = Some n'" "n = Suc n'" by auto
    from Cons.prems(2) n'(2) have "lazy_until_fence (drop n' cs) = None" by simp
    from Cons.IH [OF n'(1) this] have "replace_fences cs = cs" .
    moreover from False have "match_here (c # cs) = None" by (simp add: match_here_def)
    ultimately show ?thesis by simp
  qed
qed

lemma replace_fences_no_fence: "lazy_until_fence s = None \<Longrightarrow> replace_fences s = s"
  by (intro replace_fences_no_match lazy_None_no_match)

section \<open>Trimming\<close>

lemma dropWhile_rev_fix:
  assumes "dropWhile P xs = xs"
  shows "dropWhile P (rev (dropWhile P (rev xs))) = rev (dropWhile P (rev xs))"
proof (cases xs)
  case Nil then show ?thesis by simp
next
  case (Cons x xs')
  have "\<not> P x"
  proof
    assume "P x"
    with assms Cons have "length (dropWhile P xs') = Suc (length xs')" by simp
    then show False using length_dropWhile_le[of P xs'] by simp
  qed
  then show ?thesis using Cons by (simp add: dropWhile_append3)
qed

lemma trim_idem: "trim (trim s) = trim s"
proof -
  let ?X = "dropWhile is_white s"
  have "dropWhile is_white ?X = ?X" by simp
  from dropWhile_rev_fix[OF this] show ?thesis
    by (simp add: trim_def)
qed

lemma trim_sublist: "\<exists>a b. s = a @ trim s @ b"
proof -
  let ?X = "dropWhile is_white s"
  have "rev ?X = takeWhile is_white (rev ?X) @ dropWhile is_white (rev ?X)" by simp
  then have "?X = rev (dropWhile is_white (rev ?X)) @ rev (takeWhile is_white (rev ?X))"
    by (metis rev_append rev_rev_ident)
  then have "?X = trim s @ rev (takeWhile is_white (rev ?X))" by (simp add: trim_def)
  moreover have "s = takeWhile is_white s @ ?X" by simp
  ultimately show ?thesis by metis
qed

lemma trim_no_match: "\<not> has_match s \<Longrightarrow> \<not> has_match (trim s)"
proof -
  assume n: "\<not> has_match s"
  obtain a b where ab: "s = a @ trim s @ b" using trim_sublist by blast
  show ?thesis
  proof
    assume "has_match (trim s)"
    then have "has_match (trim s @ b)" by (rule has_match_append1)
    then have "has_match (a @ trim s @ b)" by (rule has_match_append2)
    with ab n show False by simp
  qed
qed

lemma strip_no_match: "\<not> has_match (trim (replace_fences s))"
  by (rule trim_no_match) (rule replace_fences_sound)

lemma strip_idem:
  "trim (replace_fences (trim (replace_fences s))) = trim (replace_fences s)"
  by (simp add: replace_fences_no_match strip_no_match trim_idem)

section \<open>The two exempt indices\<close>

lemma collect_loop_eq:
  "i < int (length ms) \<Longrightarrow> collect_loop ms i acc =
     acc @ take (2 - length acc) (filter (\<lambda>k. role (ms ! k) = Assistant) (rev [0..<nat (i + 1)]))"
proof (induction ms i acc rule: collect_loop.induct)
  case (1 ms i acc)
  show ?case
  proof (cases "i \<ge> 0 \<and> length acc < 2")
    case False
    then show ?thesis by (subst collect_loop.simps) auto
  next
    case True
    then have n: "nat (i + 1) = Suc (nat i)" "nat (i - 1 + 1) = nat i" by auto
    from True 1 show ?thesis
      apply (subst collect_loop.simps)
      apply (simp add: n)
      apply (auto simp: Suc_diff_le take_Cons' )
      done
  qed
qed

lemma assistantIndices_eq:
  "assistantIndices ms = take 2 (filter (\<lambda>k. role (ms ! k) = Assistant) (rev [0..<length ms]))"
  by (simp add: assistantIndices_def collect_loop_eq)

lemma mem_take_filter_rev:
  "i \<in> set (take k (filter (\<lambda>j. P (ms ! j)) (rev [0..<length ms]))) \<longleftrightarrow>
     i < length ms \<and> P (ms ! i) \<and> length (filter P (drop (Suc i) ms)) < k"
proof (induction ms arbitrary: k rule: rev_induct)
  case Nil then show ?case by simp
next
  case (snoc x xs)
  have f: "filter (\<lambda>j. P ((xs @ [x]) ! j)) (rev [0..<length xs]) =
           filter (\<lambda>j. P (xs ! j)) (rev [0..<length xs])"
    by (rule filter_cong) (auto simp: nth_append)
  have e: "filter (\<lambda>j. P ((xs @ [x]) ! j)) (rev [0..<length (xs @ [x])]) =
           (if P x then [length xs] else []) @ filter (\<lambda>j. P (xs ! j)) (rev [0..<length xs])"
    by (simp add: f)
  show ?case
  proof (cases "P x")
    case False
    then show ?thesis unfolding e using snoc[of k] by (auto simp: nth_append)
  next
    case True
    show ?thesis
    proof (cases k)
      case 0 then show ?thesis by simp
    next
      case (Suc k')
      then show ?thesis unfolding e using snoc[of k'] True by (auto simp: nth_append)
    qed
  qed
qed

lemma mem_assistantIndices:
  "i \<in> set (assistantIndices ms) \<longleftrightarrow>
     i < length ms \<and> role (ms ! i) = Assistant \<and>
     length (filter (\<lambda>m. role m = Assistant) (drop (Suc i) ms)) < 2"
  unfolding assistantIndices_eq by (rule mem_take_filter_rev)

lemma length_optimize: "length (optimizeMessagesForTokens ms) = length ms"
  by (simp add: optimizeMessagesForTokens_def)

lemma nth_optimize:
  "i < length ms \<Longrightarrow> optimizeMessagesForTokens ms ! i =
     (if role (ms ! i) = Assistant \<and> i \<notin> set (assistantIndices ms)
      then (ms ! i)\<lparr>content := trim (replace_fences (content (ms ! i)))\<rparr>
      else ms ! i)"
  by (simp add: optimizeMessagesForTokens_def nth_enumerate_eq)

lemma role_optimize: "i < length ms \<Longrightarrow> role (optimizeMessagesForTokens ms ! i) = role (ms ! i)"
  by (simp add: nth_optimize)

lemma assistantIndices_optimize:
  "assistantIndices (optimizeMessagesForTokens ms) = assistantIndices ms"
proof -
  have "filter (\<lambda>k. role (optimizeMessagesForTokens ms ! k) = Assistant) (rev [0..<length ms]) =
        filter (\<lambda>k. role (ms ! k) = Assistant) (rev [0..<length ms])"
    by (rule filter_cong) (auto simp: role_optimize)
  then show ?thesis by (simp add: assistantIndices_eq length_optimize)
qed

lemma optimize_idem:
  "optimizeMessagesForTokens (optimizeMessagesForTokens ms) = optimizeMessagesForTokens ms"
proof (rule nth_equalityI)
  show "length (optimizeMessagesForTokens (optimizeMessagesForTokens ms)) =
        length (optimizeMessagesForTokens ms)" by (simp add: length_optimize)
next
  fix i assume "i < length (optimizeMessagesForTokens (optimizeMessagesForTokens ms))"
  then have i: "i < length ms" by (simp add: length_optimize)
  then have i': "i < length (optimizeMessagesForTokens ms)" by (simp add: length_optimize)
  show "optimizeMessagesForTokens (optimizeMessagesForTokens ms) ! i =
        optimizeMessagesForTokens ms ! i"
    unfolding nth_optimize[OF i'] assistantIndices_optimize
    using i by (simp add: nth_optimize strip_idem)
qed

lemmas js_eval = js_def startsWith_def fence_def match_here_def trim_def is_white_def

lemma among_two_latest_iff:
  "i \<in> set (assistantIndices ms) \<longleftrightarrow> among_two_latest_assistants ms i"
  by (simp add: mem_assistantIndices among_two_latest_assistants_def)

lemma slice_from_end_last: "slice_from_end n xs = last_entries n xs"
  by (simp add: slice_from_end_def last_entries_def take_rev)

lemma first_three: "3 \<le> length xs \<Longrightarrow> [xs ! 0, xs ! 1, xs ! 2] = take 3 xs"
  by (cases xs; cases "tl xs"; cases "tl (tl xs)") (auto simp: numeral_3_eq_3 numeral_2_eq_2)

lemma drop_as_map: "drop k xs = map ((!) xs) [k ..< length xs]"
  by (rule nth_equalityI) auto

lemma example_history_eval:
  "optimizeMessagesForTokens example_history =
     [\<lparr>role = System, content = js ''sys''\<rparr>,
      \<lparr>role = User, content = js ''hi''\<rparr>,
      \<lparr>role = Assistant, content = []\<rparr>,
      \<lparr>role = Assistant, content = js ''```b```''\<rparr>,
      \<lparr>role = Assistant, content = js ''```c```''\<rparr>]"
  by (simp add: example_history_def optimizeMessagesForTokens_def enumerate_eq_zip
      assistantIndices_eq js_eval upt_rec)

section \<open>The stream translation\<close>

lemmas json_eval = js_def quoteJSONString_def is_high_surrogate_def is_low_surrogate_def

lemma quote_keys:
  \<open>quoteJSONString (js ''choices'') = js ''"choices"''\<close>
  \<open>quoteJSONString (js ''delta'') = js ''"delta"''\<close>
  \<open>quoteJSONString (js ''content'') = js ''"content"''\<close>
  by (simp_all add: json_eval)

lemma sse_event_eq:
  \<open>sse_event t = js ''data: {"choices":[{"delta":{"content":'' @ quoteJSONString t @ js ''}}]}'' @ [0x0A, 0x0A]\<close>
  by (simp add: sse_event_def payload_def quote_keys) (simp add: js_def)


lemma for_await_eq:
  "for_await up ctl =
     (ctl @ map (\<lambda>t. Enqueue (encode (sse_event t))) (filter (\<lambda>t. t \<noteq> []) (chunk_texts up)),
      raised up)"
  by (induction up arbitrary: ctl) simp_all

lemma encode_sse_event_prefix:
  "take 7 (encode (sse_event t)) = [0x64, 0x61, 0x74, 0x61, 0x3A, 0x20, 0x7B]"
  by (simp add: sse_event_def payload_def js_def is_high_surrogate_def is_low_surrogate_def
      utf8_code_point_def)

lemma encode_done_event:
  "encode done_event =
     [0x64, 0x61, 0x74, 0x61, 0x3A, 0x20, 0x5B, 0x44, 0x4F, 0x4E, 0x45, 0x5D, 0x0A, 0x0A]"
  by (simp add: done_event_def js_def is_high_surrogate_def is_low_surrogate_def
      utf8_code_point_def)

lemma sse_event_not_done: "encode (sse_event t) \<noteq> encode done_event"
proof
  assume "encode (sse_event t) = encode done_event"
  then have "take 7 (encode (sse_event t)) = take 7 (encode done_event)" by simp
  then show False unfolding encode_sse_event_prefix encode_done_event by simp
qed

lemma done_not_sse_event: "encode done_event \<noteq> encode (sse_event t)"
  using sse_event_not_done [of t] by (rule not_sym)

subsection \<open>The queue of the outgoing stream\<close>

lemma run_stream_snoc: "run_stream (events @ [ev]) = stream_step (run_stream events) ev"
  by (simp add: run_stream_def)

lemma run_stream_append:
  "run_stream (xs @ ys) = foldl stream_step (run_stream xs) ys"
  by (simp add: run_stream_def)

lemma controller_calls_of_append:
  "controller_calls_of (xs @ ys) = controller_calls_of xs @ controller_calls_of ys"
  by (induction xs rule: controller_calls_of.induct) simp_all

lemma controller_calls_of_map: "controller_calls_of (map ControllerCall cs) = cs"
  by (induction cs) simp_all

text \<open>While the controller only enqueues, nothing is lost and the stream stays readable.\<close>

lemma enqueue_phase:
  "controller_calls_of events = map Enqueue chunks \<Longrightarrow>
   rs_state (run_stream events) = Readable \<and>
   \<not> rs_close_requested (run_stream events) \<and>
   rs_delivered (run_stream events) @ rs_queue (run_stream events) = chunks \<and>
   rs_type_errors (run_stream events) = 0 \<and>
   (0 < rs_pending_reads (run_stream events) \<longrightarrow> rs_queue (run_stream events) = [])"
proof (induction events arbitrary: chunks rule: rev_induct)
  case Nil
  then show ?case by (simp add: run_stream_def new_stream_def)
next
  case (snoc ev events)
  show ?case
  proof (cases ev)
    case ClientRead
    with snoc.prems have "controller_calls_of events = map Enqueue chunks"
      by (simp add: controller_calls_of_append)
    from snoc.IH [OF this] show ?thesis
      unfolding run_stream_snoc ClientRead
      by (cases "rs_queue (run_stream events)") (auto simp: reader_read_def)
  next
    case (ControllerCall c)
    with snoc.prems have c: "controller_calls_of events @ [c] = map Enqueue chunks"
      by (simp add: controller_calls_of_append)
    then obtain chunks' b where ch: "chunks = chunks' @ [b]"
      by (cases chunks rule: rev_cases) auto
    with c have c': "controller_calls_of events = map Enqueue chunks'" "c = Enqueue b"
      by simp_all
    from snoc.IH [OF c'(1)] show ?thesis
      unfolding run_stream_snoc ControllerCall c'(2) ch
      by (auto simp: controller_enqueue_def can_close_or_enqueue_def)
  qed
qed

text \<open>Once the stream is closed or errored, the reads of the client change nothing.\<close>

lemma reads_after_end:
  "controller_calls_of events = [] \<Longrightarrow> rs_state s \<noteq> Readable \<Longrightarrow>
   foldl stream_step s events = s"
proof (induction events)
  case Nil
  then show ?case by simp
next
  case (Cons ev events)
  from Cons.prems(1) have ev: "ev = ClientRead" and r: "controller_calls_of events = []"
    by (cases ev; simp)+
  from Cons.prems(2) have "stream_step s ev = s" by (simp add: ev reader_read_def)
  with Cons.IH [OF r Cons.prems(2)] show ?case by simp
qed

lemma error_after_enqueues:
  assumes "controller_calls_of before = map Enqueue chunks"
    and "controller_calls_of after = []"
  shows "run_stream (before @ ControllerCall (Error err) # after) =
    (run_stream before)\<lparr>rs_queue := [], rs_state := Errored err, rs_pending_reads := 0\<rparr>"
proof -
  let ?s = "run_stream before"
  from enqueue_phase [OF assms(1)] have r: "rs_state ?s = Readable" by blast
  then have e: "controller_error err ?s =
      ?s\<lparr>rs_queue := [], rs_state := Errored err, rs_pending_reads := 0\<rparr>"
    by (simp add: controller_error_def)
  have "run_stream (before @ ControllerCall (Error err) # after) =
      foldl stream_step (controller_error err ?s) after"
    by (simp add: run_stream_append)
  also have "\<dots> = controller_error err ?s"
    by (rule reads_after_end [OF assms(2)]) (simp add: e)
  finally show ?thesis by (simp add: e)
qed

lemma run_enqueues:
  "run_stream (map ControllerCall (map Enqueue chunks)) = new_stream\<lparr>rs_queue := chunks\<rparr>"
proof (induction chunks rule: rev_induct)
  case Nil
  show ?case by (simp add: run_stream_def new_stream_def)
next
  case (snoc b chunks)
  then show ?case
    by (simp add: run_stream_snoc controller_enqueue_def can_close_or_enqueue_def new_stream_def)
qed

lemma read_queue_to_close:
  "rs_state s = Readable \<Longrightarrow> rs_close_requested s \<Longrightarrow> rs_queue s \<noteq> [] \<Longrightarrow>
   rs_state ((reader_read ^^ length (rs_queue s)) s) = Closed"
proof (induction "rs_queue s" arbitrary: s)
  case Nil
  then show ?case by simp
next
  case (Cons c rest)
  from Cons.hyps(2) have q: "rs_queue s = c # rest" by simp
  show ?case
  proof (cases rest)
    case Nil
    with q Cons.prems show ?thesis by (simp add: reader_read_def)
  next
    case (Cons c' rest')
    let ?t = "reader_read s"
    from q Cons Cons.prems have t: "?t = s\<lparr>rs_queue := rest, rs_delivered := rs_delivered s @ [c]\<rparr>"
      by (simp add: reader_read_def)
    then have "rest = rs_queue ?t" "rs_state ?t = Readable" "rs_close_requested ?t"
      "rs_queue ?t \<noteq> []" using Cons.prems Cons by simp_all
    from Cons.hyps(1) [OF this] have "rs_state ((reader_read ^^ length rest) ?t) = Closed"
      using t by simp
    with q show ?thesis by (simp add: funpow_swap1)
  qed
qed

lemma close_after_enqueues:
  assumes "run_stream events = new_stream\<lparr>rs_queue := q\<rparr>" and "q \<noteq> []"
  shows "rs_state (read_all (run_stream (events @ [ControllerCall Close]))) = Closed"
proof -
  let ?s = "new_stream\<lparr>rs_queue := q\<rparr> :: 'a readable_stream"
  have "run_stream (events @ [ControllerCall Close]) = controller_close ?s"
    by (simp add: run_stream_snoc assms(1))
  also have "\<dots> = ?s\<lparr>rs_close_requested := True\<rparr>"
    using assms(2) by (simp add: controller_close_def can_close_or_enqueue_def new_stream_def)
  finally have r: "run_stream (events @ [ControllerCall Close]) =
      ?s\<lparr>rs_close_requested := True\<rparr>" .
  show ?thesis
    unfolding r read_all_def
    by (rule read_queue_to_close) (simp_all add: assms(2) new_stream_def)
qed

lemma stream_state_closed:
  "stream_state_of (map Enqueue chunks @ [Enqueue d, Close]) = Closed"
proof -
  have eq: "map ControllerCall (map Enqueue chunks @ [Enqueue d, Close]) =
      map ControllerCall (map Enqueue (chunks @ [d])) @ [ControllerCall Close]" by simp
  show ?thesis
    unfolding stream_state_of_def eq
    by (rule close_after_enqueues, rule run_enqueues) simp
qed

lemma stream_state_errored:
  "stream_state_of (map Enqueue chunks @ [Error err]) = Errored err"
proof -
  have eq: "map ControllerCall (map Enqueue chunks @ [Error err]) =
      map ControllerCall (map Enqueue chunks) @ ControllerCall (Error err) # []" by simp
  have c: "controller_calls_of (map ControllerCall (map Enqueue chunks)) = map Enqueue chunks"
    by (rule controller_calls_of_map)
  have n: "controller_calls_of ([] :: 'a stream_event list) = []" by simp
  show ?thesis
    unfolding stream_state_of_def eq error_after_enqueues [OF c n]
    by (simp add: read_all_def)
qed


text \<open>Every run whose calls end with a call \<open>c\<close> splits at that call, with reads only
  behind it.\<close>

lemma run_splits_at_last_call:
  "controller_calls_of events = cs @ [c] \<Longrightarrow>
   \<exists>before after. events = before @ ControllerCall c # after \<and>
     controller_calls_of before = cs \<and> controller_calls_of after = []"
proof (induction events rule: rev_induct)
  case Nil
  then show ?case by simp
next
  case (snoc ev events)
  show ?case
  proof (cases ev)
    case ClientRead
    with snoc.prems have "controller_calls_of events = cs @ [c]"
      by (simp add: controller_calls_of_append)
    from snoc.IH [OF this] obtain b a where
      "events = b @ ControllerCall c # a" "controller_calls_of b = cs" "controller_calls_of a = []"
      by blast
    then have "events @ [ev] = b @ ControllerCall c # (a @ [ClientRead])"
      "controller_calls_of (a @ [ClientRead]) = []"
      by (simp_all add: ClientRead controller_calls_of_append)
    with \<open>controller_calls_of b = cs\<close> show ?thesis by blast
  next
    case (ControllerCall c')
    with snoc.prems have "controller_calls_of events @ [c'] = cs @ [c]"
      by (simp add: controller_calls_of_append)
    then have "controller_calls_of events = cs" "c' = c" by simp_all
    then have "events @ [ev] = events @ ControllerCall c # []"
      "controller_calls_of events = cs" "controller_calls_of ([] :: 'a stream_event list) = []"
      by (simp_all add: ControllerCall)
    then show ?thesis by blast
  qed
qed

lemma split_at_last_call:
  "xs @ a # ys = zs @ [a] \<Longrightarrow> a \<notin> set zs \<Longrightarrow> xs = zs \<and> ys = []"
  by (cases ys rule: rev_cases) auto

lemma map_enqueue_events:
  "map (\<lambda>t. Enqueue (encode (sse_event t))) ts = map Enqueue (map (\<lambda>t. encode (sse_event t)) ts)"
  by simp

lemma start_he_then_error:
  "start he_then_error [] = [Enqueue (encode (sse_event (js ''He''))), Error 7]"
proof -
  have "js ''He'' \<noteq> []" by (simp add: js_def)
  then show ?thesis by (simp add: he_then_error_def start_def)
qed

lemmas stream_eval = run_stream_def new_stream_def controller_enqueue_def controller_close_def
  controller_error_def reader_read_def can_close_or_enqueue_def

section \<open>The handler's calls\<close>

lemma example_findUnique:
  "findUnique (messageTable example_world) (js ''m4'') =
     Some \<lparr>row_id = js ''m4'', row_chatId = js ''c1'', row_position = 4,
           row_role = js ''assistant'', row_content = js ''```c```''\<rparr>"
  by (simp add: example_world_def example_table_def findUnique_def js_def)

lemma example_findMany:
  "parse_rows (findMany (messageTable example_world) (js ''c1'') 4) = Inr example_history"
  by (simp add: example_world_def example_table_def findMany_def js_def parse_role_def
      example_history_def)

lemma example_not_stored: "\<forall>r \<in> set (messageTable example_world). row_id r \<noteq> js ''zz''"
  by (simp add: example_world_def example_table_def js_def)

lemma findUnique_None_iff:
  "findUnique tbl mid = None \<longleftrightarrow> (\<forall>r \<in> set tbl. row_id r \<noteq> mid)"
  by (auto simp: findUnique_def find_None_iff)

lemma POST_not_found:
  "findUnique (messageTable w) (messageId req) = None \<Longrightarrow>
   POST w req =
     ([DbFindUnique (messageId req)], Inr \<lparr>status = 404, contentType = None, body = NullBody\<rparr>)"
  by (simp add: POST_def)

lemma POST_invalid:
  "findUnique (messageTable w) (messageId req) = Some message \<Longrightarrow>
   parse_rows (findMany (messageTable w) (row_chatId message) (row_position message)) = Inl err \<Longrightarrow>
   fst (POST w req) =
     [DbFindUnique (messageId req), DbFindMany (row_chatId message) (row_position message)]"
  by (simp add: POST_def)

lemma POST_gemini:
  "findUnique (messageTable w) (messageId req) = Some message \<Longrightarrow>
   parse_rows (findMany (messageTable w) (row_chatId message) (row_position message)) = Inr parsed \<Longrightarrow>
   includes_str (model req) (js ''gemini'') \<Longrightarrow>
   fst (POST w req) =
     [DbFindUnique (messageId req), DbFindMany (row_chatId message) (row_position message),
      CallProviderA (gemini_request_of (cap_messages (optimizeMessagesForTokens parsed)))]"
  by (simp add: POST_def Let_def split: sum.splits)

lemma POST_together:
  "findUnique (messageTable w) (messageId req) = Some message \<Longrightarrow>
   parse_rows (findMany (messageTable w) (row_chatId message) (row_position message)) = Inr parsed \<Longrightarrow>
   \<not> includes_str (model req) (js ''gemini'') \<Longrightarrow>
   fst (POST w req) =
     [DbFindUnique (messageId req), DbFindMany (row_chatId message) (row_position message),
      CallProviderB
        (together_request_of (model req) (cap_messages (optimizeMessagesForTokens parsed)))]"
  by (simp add: POST_def Let_def split: sum.splits)

lemma POST_trace_cases:
  "(\<exists>message parsed.
      findUnique (messageTable w) (messageId req) = Some message \<and>
      parse_rows (findMany (messageTable w) (row_chatId message) (row_position message))
        = Inr parsed) \<or>
   provider_a_calls (fst (POST (w :: ('e, 'b) world) req)) = [] \<and>
   provider_b_calls (fst (POST w req)) = []"
proof (cases "findUnique (messageTable w) (messageId req)")
  case None
  then show ?thesis by (simp add: POST_not_found)
next
  case (Some message)
  show ?thesis
  proof (cases "parse_rows (findMany (messageTable w) (row_chatId message) (row_position message))
")
    case (Inl err)
    with Some show ?thesis by (simp add: POST_def)
  next
    case (Inr parsed)
    with Some show ?thesis by blast
  qed
qed

lemma includes_str_iff: "includes_str s p \<longleftrightarrow> (\<exists>a b. s = a @ p @ b)"
proof (induction s)
  case Nil
  show ?case by (auto simp: startsWith_def)
next
  case (Cons c cs)
  show ?case
  proof
    assume "includes_str (c # cs) p"
    then consider "startsWith (c # cs) p" | "includes_str cs p" by auto
    then show "\<exists>a b. c # cs = a @ p @ b"
    proof cases
      case 1
      then obtain t where "c # cs = p @ t" unfolding startsWith_iff ..
      then have "c # cs = [] @ p @ t" by simp
      then show ?thesis by blast
    next
      case 2
      with Cons obtain a b where "cs = a @ p @ b" by blast
      then have "c # cs = (c # a) @ p @ b" by simp
      then show ?thesis by blast
    qed
  next
    assume "\<exists>a b. c # cs = a @ p @ b"
    then obtain a b where ab: "c # cs = a @ p @ b" by blast
    show "includes_str (c # cs) p"
    proof (cases a)
      case Nil
      with ab have "startsWith (c # cs) p" unfolding startsWith_iff by auto
      then show ?thesis by simp
    next
      case (Cons x a')
      with ab have "cs = a' @ p @ b" by simp
      with Cons.IH have "includes_str cs p" by blast
      then show ?thesis by simp
    qed
  qed
qed


lemma example_includes:
  "includes_str (js ''gemini-2.0-flash'') (js ''gemini'')"
  "\<not> includes_str (js ''llama-3'') (js ''gemini'')"
  "\<not> includes_str (js ''Gemini-Pro'') (js ''gemini'')"
  by (simp_all add: js_def startsWith_def)

lemma find_first:
  "\<forall>p \<in> set pre. \<not> P p \<Longrightarrow> P m \<Longrightarrow> find P (pre @ m # post) = Some m"
  by (induction pre) simp_all

lemma find_none: "\<forall>p \<in> set xs. \<not> P p \<Longrightarrow> find P xs = None"
  by (simp add: find_None_iff)

lemma example_selected:
  "cap_messages (optimizeMessagesForTokens example_history) =
     [\<lparr>role = System, content = js ''sys''\<rparr>,
      \<lparr>role = User, content = js ''hi''\<rparr>,
      \<lparr>role = Assistant, content = []\<rparr>,
      \<lparr>role = Assistant, content = js ''```b```''\<rparr>,
      \<lparr>role = Assistant, content = js ''```c```''\<rparr>]"
  unfolding example_history_eval by (simp add: cap_messages_def)

lemma POST_model_only_dispatches:
  "includes_str (model req) (js ''gemini'') \<Longrightarrow> includes_str (model req') (js ''gemini'') \<Longrightarrow>
   messageId req' = messageId req \<Longrightarrow> POST w req' = POST w req"
  by (simp add: POST_def Let_def split: option.splits sum.splits)

section \<open>The claims\<close>

text \<open>
  C1. Code-block stripping. For every list of messages, \<open>optimizeMessagesForTokens\<close>
  keeps the length, the order and every role; it leaves the two most recent assistant
  messages as they are, and every system and user message as it is; every other
  assistant message keeps its role and gets the content in which the regular expression's
  matches (three backticks, any code units, as few as possible, three backticks) are
  removed and the white space at both ends is trimmed.
\<close>

theorem optimize_strips_older_assistants:
  "length (optimizeMessagesForTokens ms) = length ms \<and>
   map role (optimizeMessagesForTokens ms) = map role ms \<and>
   (\<forall>i < length ms.
      (among_two_latest_assistants ms i \<longrightarrow> optimizeMessagesForTokens ms ! i = ms ! i) \<and>
      (role (ms ! i) = System \<or> role (ms ! i) = User \<longrightarrow>
         optimizeMessagesForTokens ms ! i = ms ! i) \<and>
      (role (ms ! i) = Assistant \<and> \<not> among_two_latest_assistants ms i \<longrightarrow>
         optimizeMessagesForTokens ms ! i =
           \<lparr>role = Assistant, content = trim (replace_fences (content (ms ! i)))\<rparr>))"
proof (intro conjI allI impI)
  show "length (optimizeMessagesForTokens ms) = length ms" by (rule length_optimize)
  show "map role (optimizeMessagesForTokens ms) = map role ms"
    by (rule nth_equalityI) (simp_all add: length_optimize role_optimize)
next
  fix i assume i: "i < length ms"
  { assume "among_two_latest_assistants ms i"
    then show "optimizeMessagesForTokens ms ! i = ms ! i"
      using i by (simp add: nth_optimize among_two_latest_iff) }
  { assume "role (ms ! i) = System \<or> role (ms ! i) = User"
    then show "optimizeMessagesForTokens ms ! i = ms ! i"
      using i by (auto simp: nth_optimize) }
  { assume "role (ms ! i) = Assistant \<and> \<not> among_two_latest_assistants ms i"
    then show "optimizeMessagesForTokens ms ! i =
           \<lparr>role = Assistant, content = trim (replace_fences (content (ms ! i)))\<rparr>"
      using i by (cases "ms ! i") (simp add: nth_optimize among_two_latest_iff) }
qed

theorem optimize_strips_older_assistants_witness:
  "0 < length witness_history \<and>
   role (witness_history ! 0) = Assistant \<and>
   \<not> among_two_latest_assistants witness_history 0 \<and>
   optimizeMessagesForTokens witness_history ! 0 = \<lparr>role = Assistant, content = js ''x  y''\<rparr> \<and>
   among_two_latest_assistants witness_history 2 \<and>
   optimizeMessagesForTokens witness_history ! 2 = \<lparr>role = Assistant, content = js ''```k```''\<rparr> \<and>
   role (witness_history ! 1) = User \<and>
   optimizeMessagesForTokens witness_history ! 1 = \<lparr>role = User, content = js ''q''\<rparr>"
proof -
  have h0: "0 < length witness_history" "role (witness_history ! 0) = Assistant"
    "\<not> among_two_latest_assistants witness_history 0"
    by (simp_all add: witness_history_def among_two_latest_assistants_def)
  have h2: "2 < length witness_history" "among_two_latest_assistants witness_history 2"
    by (simp_all add: witness_history_def among_two_latest_assistants_def)
  have h1: "1 < length witness_history" "role (witness_history ! 1) = User"
    by (simp_all add: witness_history_def)
  have c: "trim (replace_fences (content (witness_history ! 0))) = js ''x  y''"
    by (simp add: witness_history_def js_eval)
  note t = optimize_strips_older_assistants [of witness_history]
  from t h0 have "optimizeMessagesForTokens witness_history ! 0 =
      \<lparr>role = Assistant, content = trim (replace_fences (content (witness_history ! 0)))\<rparr>"
    by blast
  moreover from t h2 have "optimizeMessagesForTokens witness_history ! 2 = witness_history ! 2"
    by blast
  moreover from t h1 have "optimizeMessagesForTokens witness_history ! 1 = witness_history ! 1"
    by blast
  ultimately show ?thesis using h0 h1 h2 c by (simp add: witness_history_def)
qed

text \<open>
  C2. Length capping. A list of at most 10 entries passes unchanged. A longer list is
  replaced by exactly 10 entries: those at the indices 0, 1 and 2, then the last 7, in
  their order; for 12 entries these are the positions 0, 1, 2, 5, 6, 7, 8, 9, 10, 11.
  In the handler the list is the one \<open>optimizeMessagesForTokens\<close> returned.
\<close>

theorem cap_messages_keeps_three_and_seven:
  "(length ms \<le> 10 \<longrightarrow> cap_messages ms = ms) \<and>
   (10 < length ms \<longrightarrow>
      length (cap_messages ms) = 10 \<and>
      cap_messages ms = [ms ! 0, ms ! 1, ms ! 2] @ last_entries 7 ms \<and>
      cap_messages ms = take 3 ms @ drop (length ms - 7) ms \<and>
      cap_messages ms = map ((!) ms) ([0, 1, 2] @ [length ms - 7 ..< length ms])) \<and>
   (length ms = 12 \<longrightarrow>
      cap_messages ms = map ((!) ms) [0, 1, 2, 5, 6, 7, 8, 9, 10, 11]) \<and>
   (10 < length parsed \<longrightarrow>
      cap_messages (optimizeMessagesForTokens parsed) =
        take 3 (optimizeMessagesForTokens parsed) @
        last_entries 7 (optimizeMessagesForTokens parsed))"
proof (intro conjI impI)
  assume "length ms \<le> 10"
  then show "cap_messages ms = ms" by (simp add: cap_messages_def)
next
  assume l: "10 < length ms"
  then show "length (cap_messages ms) = 10"
    by (simp add: cap_messages_def slice_from_end_def)
  from l show "cap_messages ms = [ms ! 0, ms ! 1, ms ! 2] @ last_entries 7 ms"
    by (simp add: cap_messages_def slice_from_end_last)
  from l have t: "[ms ! 0, ms ! 1, ms ! 2] = take 3 ms" by (intro first_three) simp
  from l show c: "cap_messages ms = take 3 ms @ drop (length ms - 7) ms"
    unfolding cap_messages_def slice_from_end_def t by simp
  have "drop (length ms - 7) ms = map ((!) ms) [length ms - 7 ..< length ms]"
    by (rule drop_as_map)
  with l show "cap_messages ms = map ((!) ms) ([0, 1, 2] @ [length ms - 7 ..< length ms])"
    by (simp add: cap_messages_def slice_from_end_def)
next
  assume l: "length ms = 12"
  have "drop (length ms - 7) ms = map ((!) ms) [length ms - 7 ..< length ms]"
    by (rule drop_as_map)
  moreover have "[5 ..< 12] = [5, 6, 7, 8, 9, 10, 11::nat]" by code_simp
  ultimately show "cap_messages ms = map ((!) ms) [0, 1, 2, 5, 6, 7, 8, 9, 10, 11]"
    using l by (simp add: cap_messages_def slice_from_end_def)
next
  assume l: "10 < length parsed"
  then have "3 \<le> length (optimizeMessagesForTokens parsed)" by (simp add: length_optimize)
  then have "[optimizeMessagesForTokens parsed ! 0, optimizeMessagesForTokens parsed ! 1,
              optimizeMessagesForTokens parsed ! 2] = take 3 (optimizeMessagesForTokens parsed)"
    by (rule first_three)
  with l show "cap_messages (optimizeMessagesForTokens parsed) =
        take 3 (optimizeMessagesForTokens parsed) @
        last_entries 7 (optimizeMessagesForTokens parsed)"
    by (simp add: cap_messages_def slice_from_end_last length_optimize)
qed

theorem cap_messages_keeps_three_and_seven_witness:
  "length [1, 2, 3 :: nat] \<le> 10 \<and> cap_messages [1, 2, 3 :: nat] = [1, 2, 3] \<and>
   10 < length [0, 1, 2, 3, 4, 5, 6, 7, 8, 9, 10, 11 :: nat] \<and>
   length [0, 1, 2, 3, 4, 5, 6, 7, 8, 9, 10, 11 :: nat] = 12 \<and>
   length (cap_messages [0, 1, 2, 3, 4, 5, 6, 7, 8, 9, 10, 11 :: nat]) = 10 \<and>
   cap_messages [0, 1, 2, 3, 4, 5, 6, 7, 8, 9, 10, 11 :: nat] = [0, 1, 2, 5, 6, 7, 8, 9, 10, 11] \<and>
   10 < length twelve_messages \<and>
   cap_messages (optimizeMessagesForTokens twelve_messages) =
     take 3 (optimizeMessagesForTokens twelve_messages) @
     last_entries 7 (optimizeMessagesForTokens twelve_messages)"
proof -
  have a: "length [1, 2, 3 :: nat] \<le> 10" by simp
  have b: "10 < length [0, 1, 2, 3, 4, 5, 6, 7, 8, 9, 10, 11 :: nat]"
    "length [0, 1, 2, 3, 4, 5, 6, 7, 8, 9, 10, 11 :: nat] = 12" by simp_all
  have c: "10 < length twelve_messages" by (simp add: twelve_messages_def)
  from cap_messages_keeps_three_and_seven [of "[1, 2, 3 :: nat]" twelve_messages] a c
  have 1: "cap_messages [1, 2, 3 :: nat] = [1, 2, 3]"
    and 2: "cap_messages (optimizeMessagesForTokens twelve_messages) =
     take 3 (optimizeMessagesForTokens twelve_messages) @
     last_entries 7 (optimizeMessagesForTokens twelve_messages)" by blast+
  from cap_messages_keeps_three_and_seven [of "[0, 1, 2, 3, 4, 5, 6, 7, 8, 9, 10, 11 :: nat]"] b
  have 3: "length (cap_messages [0, 1, 2, 3, 4, 5, 6, 7, 8, 9, 10, 11 :: nat]) = 10"
    and 4: "cap_messages [0, 1, 2, 3, 4, 5, 6, 7, 8, 9, 10, 11 :: nat] =
      map ((!) [0, 1, 2, 3, 4, 5, 6, 7, 8, 9, 10, 11]) [0, 1, 2, 5, 6, 7, 8, 9, 10, 11]" by blast+
  from 4 have 5: "cap_messages [0, 1, 2, 3, 4, 5, 6, 7, 8, 9, 10, 11 :: nat] =
      [0, 1, 2, 5, 6, 7, 8, 9, 10, 11]" by simp
  from a b c 1 2 3 5 show ?thesis by blast
qed

text \<open>
  C3. Stripping is idempotent. A second pass of \<open>optimizeMessagesForTokens\<close> returns
  what the first returned. After one pass the content of a stripped assistant message
  holds no span the regular expression matches, so the replacement leaves it as it is;
  the two most recent assistant messages are the same two in the second pass and are
  untouched by both.
\<close>

theorem optimize_twice_is_once:
  "optimizeMessagesForTokens (optimizeMessagesForTokens ms) = optimizeMessagesForTokens ms \<and>
   (\<forall>i < length ms.
      (role (ms ! i) = Assistant \<and> \<not> among_two_latest_assistants ms i \<longrightarrow>
         \<not> has_match (content (optimizeMessagesForTokens ms ! i)) \<and>
         replace_fences (content (optimizeMessagesForTokens ms ! i)) =
           content (optimizeMessagesForTokens ms ! i)) \<and>
      (among_two_latest_assistants ms i \<longrightarrow>
         among_two_latest_assistants (optimizeMessagesForTokens ms) i \<and>
         optimizeMessagesForTokens ms ! i = ms ! i \<and>
         optimizeMessagesForTokens (optimizeMessagesForTokens ms) ! i = ms ! i))"
proof (intro conjI allI impI)
  show idem: "optimizeMessagesForTokens (optimizeMessagesForTokens ms) =
    optimizeMessagesForTokens ms" by (rule optimize_idem)
  fix i assume i: "i < length ms"
  { assume a: "role (ms ! i) = Assistant \<and> \<not> among_two_latest_assistants ms i"
    with i have c: "content (optimizeMessagesForTokens ms ! i) =
        trim (replace_fences (content (ms ! i)))"
      by (simp add: nth_optimize among_two_latest_iff)
    show n: "\<not> has_match (content (optimizeMessagesForTokens ms ! i))"
      unfolding c by (rule strip_no_match)
    from n show "replace_fences (content (optimizeMessagesForTokens ms ! i)) =
           content (optimizeMessagesForTokens ms ! i)" by (rule replace_fences_no_match) }
  { assume a: "among_two_latest_assistants ms i"
    then have "i \<in> set (assistantIndices (optimizeMessagesForTokens ms))"
      by (simp add: assistantIndices_optimize among_two_latest_iff)
    then show "among_two_latest_assistants (optimizeMessagesForTokens ms) i"
      by (simp add: among_two_latest_iff)
    from a i show u: "optimizeMessagesForTokens ms ! i = ms ! i"
      by (simp add: nth_optimize among_two_latest_iff)
    from u show "optimizeMessagesForTokens (optimizeMessagesForTokens ms) ! i = ms ! i"
      by (simp add: idem) }
qed

theorem optimize_twice_is_once_witness:
  "0 < length witness_history \<and>
   role (witness_history ! 0) = Assistant \<and>
   \<not> among_two_latest_assistants witness_history 0 \<and>
   \<not> has_match (content (optimizeMessagesForTokens witness_history ! 0)) \<and>
   has_match (content (witness_history ! 0)) \<and>
   2 < length witness_history \<and>
   among_two_latest_assistants witness_history 2 \<and>
   has_match (content (witness_history ! 2)) \<and>
   optimizeMessagesForTokens (optimizeMessagesForTokens witness_history) ! 2 =
     witness_history ! 2"
proof -
  have h0: "0 < length witness_history" "role (witness_history ! 0) = Assistant"
    "\<not> among_two_latest_assistants witness_history 0"
    by (simp_all add: witness_history_def among_two_latest_assistants_def)
  have h2: "2 < length witness_history" "among_two_latest_assistants witness_history 2"
    by (simp_all add: witness_history_def among_two_latest_assistants_def)
  have m: "has_match (content (witness_history ! 0))" "has_match (content (witness_history ! 2))"
    by (simp_all add: witness_history_def js_eval)
  note t = optimize_twice_is_once [of witness_history]
  from t h0 have "\<not> has_match (content (optimizeMessagesForTokens witness_history ! 0))"
    by blast
  moreover from t h2 have
    "optimizeMessagesForTokens (optimizeMessagesForTokens witness_history) ! 2 =
     witness_history ! 2" by blast
  ultimately show ?thesis using h0 h2 m by blast
qed

text \<open>
  C4, as it is stated, fails: a request whose \<open>messageId\<close> is not in the table makes
  no provider call at all, although its model string contains the marker. The handler
  returns 404 before the dispatch (lines 42 to 44).
\<close>

theorem not_found_makes_no_provider_call:
  "includes_str (js ''gemini-2.0-flash'') (js ''gemini'') \<and>
   provider_a_calls
     (fst (POST example_world \<lparr>messageId = js ''zz'', model = js ''gemini-2.0-flash''\<rparr>)) = [] \<and>
   provider_b_calls
     (fst (POST example_world \<lparr>messageId = js ''zz'', model = js ''gemini-2.0-flash''\<rparr>)) = []"
proof -
  have "findUnique (messageTable example_world) (js ''zz'') = None"
    using example_not_stored by (simp add: findUnique_None_iff)
  then show ?thesis by (simp add: POST_not_found example_includes)
qed

text \<open>
  C4, amended. Provider dispatch. For every request whose \<open>messageId\<close> is found and whose
  history passes the validation, exactly one provider is called, chosen by whether the
  model string holds \<open>gemini\<close> as a substring, code unit by code unit: Provider A alone
  if it does, Provider B alone if it does not. For every request whatsoever, at most one
  provider is called, never Provider B when the marker is there, and never Provider A
  when it is not.
\<close>

theorem dispatch_selects_one_provider:
  "(findUnique (messageTable w) (messageId req) = Some message \<and>
    parse_rows (findMany (messageTable w) (row_chatId message) (row_position message))
      = Inr parsed \<longrightarrow>
      (includes_str (model req) (js ''gemini'') \<longrightarrow>
         provider_a_calls (fst (POST w req)) =
           [gemini_request_of (cap_messages (optimizeMessagesForTokens parsed))] \<and>
         provider_b_calls (fst (POST w req)) = []) \<and>
      (\<not> includes_str (model req) (js ''gemini'') \<longrightarrow>
         provider_b_calls (fst (POST w req)) =
           [together_request_of (model req) (cap_messages (optimizeMessagesForTokens parsed))] \<and>
         provider_a_calls (fst (POST w req)) = [])) \<and>
   (includes_str (model req) (js ''gemini'') \<longrightarrow> provider_b_calls (fst (POST w req)) = []) \<and>
   (\<not> includes_str (model req) (js ''gemini'') \<longrightarrow> provider_a_calls (fst (POST w req)) = []) \<and>
   length (provider_a_calls (fst (POST w req))) + length (provider_b_calls (fst (POST w req))) \<le> 1 \<and>
   (includes_str (model req) (js ''gemini'') \<longleftrightarrow> (\<exists>a b. model req = a @ js ''gemini'' @ b))"
proof -
  have reach: "(includes_str (model req) (js ''gemini'') \<longrightarrow>
         provider_a_calls (fst (POST w req)) =
           [gemini_request_of (cap_messages (optimizeMessagesForTokens p))] \<and>
         provider_b_calls (fst (POST w req)) = []) \<and>
      (\<not> includes_str (model req) (js ''gemini'') \<longrightarrow>
         provider_b_calls (fst (POST w req)) =
           [together_request_of (model req) (cap_messages (optimizeMessagesForTokens p))] \<and>
         provider_a_calls (fst (POST w req)) = [])"
    if "findUnique (messageTable w) (messageId req) = Some m"
      and "parse_rows (findMany (messageTable w) (row_chatId m) (row_position m)) = Inr p"
    for m p
    using that by (cases "includes_str (model req) (js ''gemini'')")
      (simp_all add: POST_gemini POST_together)
  have rest: "(includes_str (model req) (js ''gemini'') \<longrightarrow> provider_b_calls (fst (POST w req)) = []) \<and>
   (\<not> includes_str (model req) (js ''gemini'') \<longrightarrow> provider_a_calls (fst (POST w req)) = []) \<and>
   length (provider_a_calls (fst (POST w req))) + length (provider_b_calls (fst (POST w req))) \<le> 1"
    using POST_trace_cases [of w req]
  proof
    assume "\<exists>message parsed.
      findUnique (messageTable w) (messageId req) = Some message \<and>
      parse_rows (findMany (messageTable w) (row_chatId message) (row_position message))
        = Inr parsed"
    then obtain m p where "findUnique (messageTable w) (messageId req) = Some m"
      "parse_rows (findMany (messageTable w) (row_chatId m) (row_position m)) = Inr p" by blast
    from reach [OF this] show ?thesis
      by (cases "includes_str (model req) (js ''gemini'')") simp_all
  next
    assume "provider_a_calls (fst (POST w req)) = [] \<and> provider_b_calls (fst (POST w req)) = []"
    then show ?thesis by simp
  qed
  from reach rest includes_str_iff [of "model req" "js ''gemini''"] show ?thesis by blast
qed

theorem dispatch_selects_one_provider_witness:
  "findUnique (messageTable example_world) (js ''m4'') =
     Some \<lparr>row_id = js ''m4'', row_chatId = js ''c1'', row_position = 4,
           row_role = js ''assistant'', row_content = js ''```c```''\<rparr> \<and>
   parse_rows (findMany (messageTable example_world) (js ''c1'') 4) = Inr example_history \<and>
   includes_str (js ''gemini-2.0-flash'') (js ''gemini'') \<and>
   provider_a_calls
     (fst (POST example_world \<lparr>messageId = js ''m4'', model = js ''gemini-2.0-flash''\<rparr>)) =
     [gemini_request_of (cap_messages (optimizeMessagesForTokens example_history))] \<and>
   provider_b_calls
     (fst (POST example_world \<lparr>messageId = js ''m4'', model = js ''gemini-2.0-flash''\<rparr>)) = [] \<and>
   \<not> includes_str (js ''Gemini-Pro'') (js ''gemini'') \<and>
   provider_b_calls
     (fst (POST example_world \<lparr>messageId = js ''m4'', model = js ''Gemini-Pro''\<rparr>)) =
     [together_request_of (js ''Gemini-Pro'')
        (cap_messages (optimizeMessagesForTokens example_history))] \<and>
   provider_a_calls
     (fst (POST example_world \<lparr>messageId = js ''m4'', model = js ''Gemini-Pro''\<rparr>)) = []"
proof -
  let ?row = "\<lparr>row_id = js ''m4'', row_chatId = js ''c1'', row_position = 4,
           row_role = js ''assistant'', row_content = js ''```c```''\<rparr>"
  let ?g = "\<lparr>messageId = js ''m4'', model = js ''gemini-2.0-flash''\<rparr>"
  let ?t = "\<lparr>messageId = js ''m4'', model = js ''Gemini-Pro''\<rparr>"
  have f: "findUnique (messageTable example_world) (messageId ?g) = Some ?row"
    "findUnique (messageTable example_world) (messageId ?t) = Some ?row"
    by (simp_all add: example_findUnique)
  have p: "parse_rows (findMany (messageTable example_world) (row_chatId ?row) (row_position ?row))
      = Inr example_history" by (simp add: example_findMany)
  have i: "includes_str (model ?g) (js ''gemini'')" "\<not> includes_str (model ?t) (js ''gemini'')"
    by (simp_all add: example_includes)
  from dispatch_selects_one_provider [of example_world ?g ?row example_history] f(1) p i(1)
  have 1: "provider_a_calls (fst (POST example_world ?g)) =
     [gemini_request_of (cap_messages (optimizeMessagesForTokens example_history))]"
    and 2: "provider_b_calls (fst (POST example_world ?g)) = []" by blast+
  from dispatch_selects_one_provider [of example_world ?t ?row example_history] f(2) p i(2)
  have 3: "provider_b_calls (fst (POST example_world ?t)) =
     [together_request_of (model ?t) (cap_messages (optimizeMessagesForTokens example_history))]"
    and 4: "provider_a_calls (fst (POST example_world ?t)) = []" by blast+
  from 3 have 5: "provider_b_calls (fst (POST example_world ?t)) =
     [together_request_of (js ''Gemini-Pro'')
        (cap_messages (optimizeMessagesForTokens example_history))]" by simp
  from f p i 1 2 4 5 example_findUnique example_findMany example_includes show ?thesis by simp
qed

text \<open>
  C5. Not found. For every request whose \<open>messageId\<close> is the id of no stored message, the
  handler returns status 404 with no body; the only call it makes is the lookup by id:
  no history query and no provider call.
\<close>

theorem unknown_message_returns_404:
  "(\<forall>r \<in> set (messageTable w). row_id r \<noteq> messageId req) \<longrightarrow>
     POST w req =
       ([DbFindUnique (messageId req)],
        Inr \<lparr>status = 404, contentType = None, body = NullBody\<rparr>) \<and>
     history_queries (fst (POST w req)) = [] \<and>
     provider_a_calls (fst (POST w req)) = [] \<and>
     provider_b_calls (fst (POST w req)) = []"
proof
  assume "\<forall>r \<in> set (messageTable w). row_id r \<noteq> messageId req"
  then have "findUnique (messageTable w) (messageId req) = None"
    by (simp add: findUnique_None_iff)
  then have "POST w req =
       ([DbFindUnique (messageId req)],
        Inr \<lparr>status = 404, contentType = None, body = NullBody\<rparr>)" by (rule POST_not_found)
  then show "POST w req =
       ([DbFindUnique (messageId req)],
        Inr \<lparr>status = 404, contentType = None, body = NullBody\<rparr>) \<and>
     history_queries (fst (POST w req)) = [] \<and>
     provider_a_calls (fst (POST w req)) = [] \<and>
     provider_b_calls (fst (POST w req)) = []" by simp
qed

theorem unknown_message_returns_404_witness:
  "js ''zz'' \<notin> row_id ` set (messageTable example_world) \<and>
   POST example_world \<lparr>messageId = js ''zz'', model = js ''llama-3''\<rparr> =
     ([DbFindUnique (js ''zz'')], Inr \<lparr>status = 404, contentType = None, body = NullBody\<rparr>) \<and>
   history_queries (fst (POST example_world \<lparr>messageId = js ''zz'', model = js ''llama-3''\<rparr>))
     = [] \<and>
   provider_a_calls (fst (POST example_world \<lparr>messageId = js ''zz'', model = js ''llama-3''\<rparr>))
     = [] \<and>
   provider_b_calls (fst (POST example_world \<lparr>messageId = js ''zz'', model = js ''llama-3''\<rparr>))
     = []"
proof -
  let ?r = "\<lparr>messageId = js ''zz'', model = js ''llama-3''\<rparr>"
  have h: "\<forall>r \<in> set (messageTable example_world). row_id r \<noteq> messageId ?r"
    using example_not_stored by simp
  from unknown_message_returns_404 [of example_world ?r] h
  have "POST example_world ?r =
       ([DbFindUnique (messageId ?r)],
        Inr \<lparr>status = 404, contentType = None, body = NullBody\<rparr>) \<and>
     history_queries (fst (POST example_world ?r)) = [] \<and>
     provider_a_calls (fst (POST example_world ?r)) = [] \<and>
     provider_b_calls (fst (POST example_world ?r)) = []" by blast
  with example_not_stored show ?thesis by auto
qed

text \<open>
  C6. The request sent to Provider A. Its turns are the messages that are not system
  messages, in order, each with the role \<open>model\<close> for an assistant message and \<open>user\<close>
  otherwise and the content as its one text part. The system instruction is the content
  of the first system message: there is none if the list has no system message, and
  later system messages are not looked at.
\<close>

theorem gemini_request_shape:
  "contents (gemini_request_of ms) =
     map (\<lambda>m. \<lparr>turn_role = (if role m = Assistant then RoleModel else RoleUser),
                parts = [content m]\<rparr>)
         (filter (\<lambda>m. role m \<noteq> System) ms) \<and>
   length (contents (gemini_request_of ms)) = length (filter (\<lambda>m. role m \<noteq> System) ms) \<and>
   ((\<forall>m \<in> set ms. role m \<noteq> System) \<longrightarrow> systemInstruction (gemini_request_of ms) = None) \<and>
   (\<forall>pre m post.
      ms = pre @ m # post \<and> role m = System \<and> (\<forall>p \<in> set pre. role p \<noteq> System) \<longrightarrow>
      systemInstruction (gemini_request_of ms) = Some (content m))"
proof (intro conjI allI impI)
  show "contents (gemini_request_of ms) =
     map (\<lambda>m. \<lparr>turn_role = (if role m = Assistant then RoleModel else RoleUser),
                parts = [content m]\<rparr>)
         (filter (\<lambda>m. role m \<noteq> System) ms)" by (simp add: gemini_request_of_def)
  show "length (contents (gemini_request_of ms)) = length (filter (\<lambda>m. role m \<noteq> System) ms)"
    by (simp add: gemini_request_of_def)
next
  assume "\<forall>m \<in> set ms. role m \<noteq> System"
  then have "find (\<lambda>m. role m = System) ms = None" by (intro find_none) simp
  then show "systemInstruction (gemini_request_of ms) = None"
    by (simp add: gemini_request_of_def)
next
  fix pre m post
  assume a: "ms = pre @ m # post \<and> role m = System \<and> (\<forall>p \<in> set pre. role p \<noteq> System)"
  then have "find (\<lambda>m. role m = System) (pre @ m # post) = Some m"
    by (intro find_first) simp_all
  with a show "systemInstruction (gemini_request_of ms) = Some (content m)"
    by (simp add: gemini_request_of_def)
qed

theorem gemini_request_shape_witness:
  "two_system_messages =
     [\<lparr>role = User, content = js ''u''\<rparr>] @ \<lparr>role = System, content = js ''first''\<rparr> #
     [\<lparr>role = Assistant, content = js ''a''\<rparr>, \<lparr>role = System, content = js ''second''\<rparr>] \<and>
   systemInstruction (gemini_request_of two_system_messages) = Some (js ''first'') \<and>
   contents (gemini_request_of two_system_messages) =
     [\<lparr>turn_role = RoleUser, parts = [js ''u'']\<rparr>,
      \<lparr>turn_role = RoleModel, parts = [js ''a'']\<rparr>] \<and>
   filter (\<lambda>m. role m = System) [\<lparr>role = User, content = js ''u''\<rparr>] = [] \<and>
   systemInstruction (gemini_request_of [\<lparr>role = User, content = js ''u''\<rparr>]) = None"
proof -
  let ?pre = "[\<lparr>role = User, content = js ''u''\<rparr>]"
  let ?m = "\<lparr>role = System, content = js ''first''\<rparr>"
  let ?post = "[\<lparr>role = Assistant, content = js ''a''\<rparr>, \<lparr>role = System, content = js ''second''\<rparr>]"
  have d: "two_system_messages = ?pre @ ?m # ?post" by (simp add: two_system_messages_def)
  have h: "role ?m = System" "\<forall>p \<in> set ?pre. role p \<noteq> System" by simp_all
  note t = gemini_request_shape [of two_system_messages]
  from t d h have 1: "systemInstruction (gemini_request_of two_system_messages) = Some (content ?m)"
    by blast
  from t have "contents (gemini_request_of two_system_messages) =
     map (\<lambda>m. \<lparr>turn_role = (if role m = Assistant then RoleModel else RoleUser),
                parts = [content m]\<rparr>)
         (filter (\<lambda>m. role m \<noteq> System) two_system_messages)" by blast
  then have 2: "contents (gemini_request_of two_system_messages) =
     [\<lparr>turn_role = RoleUser, parts = [js ''u'']\<rparr>,
      \<lparr>turn_role = RoleModel, parts = [js ''a'']\<rparr>]" by (simp add: two_system_messages_def)
  from gemini_request_shape [of ?pre] h(2)
  have 3: "systemInstruction (gemini_request_of ?pre) = None" by blast
  from d h 1 2 3 show ?thesis by simp
qed

text \<open>
  C7. Stream translation, normal end. For every upstream sequence that ends without an
  error, the controller receives one event \<^verbatim>\<open>data: <json>\<close> and a blank line for every
  chunk whose text is not empty, in order, then the event \<^verbatim>\<open>data: [DONE]\<close> and a blank
  line, then \<^verbatim>\<open>close\<close>; the JSON is the object with the text under
  \<^verbatim>\<open>choices[0].delta.content\<close>. For the chunks \<^verbatim>\<open>He\<close> and \<^verbatim>\<open>llo\<close> these are two events
  and the sentinel.
\<close>

theorem start_on_normal_end:
  \<open>(raised up = None \<longrightarrow>
      start up [] =
        map (\<lambda>t. Enqueue (encode (sse_event t))) (filter (\<lambda>t. t \<noteq> []) (chunk_texts up))
        @ [Enqueue (encode done_event), Close] \<and>
      stream_state_of (start up []) = Closed) \<and>
   sse_event t =
     js ''data: {"choices":[{"delta":{"content":'' @ quoteJSONString t @ js ''}}]}''
     @ [0x0A, 0x0A] \<and>
   done_event = js ''data: [DONE]'' @ [0x0A, 0x0A] \<and>
   start (StreamChunk (js ''He'') (StreamChunk (js ''llo'') StreamEnd)) [] =
     [Enqueue (encode (js ''data: {"choices":[{"delta":{"content":"He"}}]}'' @ [0x0A, 0x0A])),
      Enqueue (encode (js ''data: {"choices":[{"delta":{"content":"llo"}}]}'' @ [0x0A, 0x0A])),
      Enqueue (encode (js ''data: [DONE]'' @ [0x0A, 0x0A])),
      Close]\<close>
proof (intro conjI impI)
  assume r: "raised up = None"
  then show s: "start up [] =
        map (\<lambda>t. Enqueue (encode (sse_event t))) (filter (\<lambda>t. t \<noteq> []) (chunk_texts up))
        @ [Enqueue (encode done_event), Close]"
    by (simp add: start_def for_await_eq)
  show "stream_state_of (start up []) = Closed"
    unfolding s map_enqueue_events by (rule stream_state_closed)
next
  show \<open>sse_event t =
     js ''data: {"choices":[{"delta":{"content":'' @ quoteJSONString t @ js ''}}]}''
     @ [0x0A, 0x0A]\<close> by (rule sse_event_eq)
  show "done_event = js ''data: [DONE]'' @ [0x0A, 0x0A]" by (simp add: done_event_def)
  have \<open>sse_event (js ''He'') = js ''data: {"choices":[{"delta":{"content":"He"}}]}'' @ [0x0A, 0x0A]\<close>
    \<open>sse_event (js ''llo'') = js ''data: {"choices":[{"delta":{"content":"llo"}}]}'' @ [0x0A, 0x0A]\<close>
    unfolding sse_event_eq by (simp_all add: json_eval)
  moreover have "js ''He'' \<noteq> []" "js ''llo'' \<noteq> []" by (simp_all add: js_def)
  ultimately show \<open>start (StreamChunk (js ''He'') (StreamChunk (js ''llo'') StreamEnd)) [] =
     [Enqueue (encode (js ''data: {"choices":[{"delta":{"content":"He"}}]}'' @ [0x0A, 0x0A])),
      Enqueue (encode (js ''data: {"choices":[{"delta":{"content":"llo"}}]}'' @ [0x0A, 0x0A])),
      Enqueue (encode (js ''data: [DONE]'' @ [0x0A, 0x0A])),
      Close]\<close>
    by (simp add: start_def done_event_def)
qed

theorem start_on_normal_end_witness:
  "raised (StreamChunk (js ''He'') (StreamChunk [] (StreamChunk (js ''llo'') StreamEnd))
           :: unit upstream) = None \<and>
   start (StreamChunk (js ''He'') (StreamChunk [] (StreamChunk (js ''llo'') StreamEnd))
           :: unit upstream) [] =
     [Enqueue (encode (sse_event (js ''He''))), Enqueue (encode (sse_event (js ''llo''))),
      Enqueue (encode done_event), Close] \<and>
   stream_state_of
     (start (StreamChunk (js ''He'') (StreamChunk [] (StreamChunk (js ''llo'') StreamEnd))
           :: unit upstream) []) = Closed"
proof -
  let ?up = "StreamChunk (js ''He'') (StreamChunk [] (StreamChunk (js ''llo'') StreamEnd))
           :: unit upstream"
  have r: "raised ?up = None" by simp
  have n: "js ''He'' \<noteq> []" "js ''llo'' \<noteq> []" by (simp_all add: js_def)
  from start_on_normal_end [of ?up] r
  have "start ?up [] =
        map (\<lambda>t. Enqueue (encode (sse_event t))) (filter (\<lambda>t. t \<noteq> []) (chunk_texts ?up))
        @ [Enqueue (encode done_event), Close]"
    and "stream_state_of (start ?up []) = Closed" by blast+
  with r n show ?thesis by simp
qed

text \<open>
  C8, as it is stated, fails in its last part: an event that was enqueued before the
  error does not remain. \<^verbatim>\<open>controller.error\<close> empties the queue, so an event the client
  had not read when the error came never reaches it.
\<close>

theorem enqueued_event_is_dropped_by_error:
  "start he_then_error [] = [Enqueue (encode (sse_event (js ''He''))), Error 7] \<and>
   rs_queue (run_stream [ControllerCall (Enqueue (encode (sse_event (js ''He''))))
                          :: nat stream_event]) =
     [encode (sse_event (js ''He''))] \<and>
   rs_state (run_stream (map ControllerCall (start he_then_error []) @ [ClientRead])) =
     Errored 7 \<and>
   rs_queue (run_stream (map ControllerCall (start he_then_error []) @ [ClientRead])) = [] \<and>
   rs_delivered (run_stream (map ControllerCall (start he_then_error []) @ [ClientRead])) = []"
  unfolding start_he_then_error by (simp add: stream_eval)

text \<open>
  C8, amended. Stream translation, failure. For every upstream sequence that raises an
  error, the controller receives the events of the chunks before the error and then
  \<^verbatim>\<open>error\<close> with that error; neither \<^verbatim>\<open>close\<close> nor the sentinel \<^verbatim>\<open>data: [DONE]\<close> is among
  the calls. However the reads of the client fall between the calls, the stream ends in
  the error state with that error; the events the client had read when the error came
  stay read, and the events still in the queue are dropped, so the client gets no
  further event and never the sentinel.
\<close>

theorem start_on_upstream_error:
  "raised up = Some err \<longrightarrow>
     start up [] =
       map (\<lambda>t. Enqueue (encode (sse_event t))) (filter (\<lambda>t. t \<noteq> []) (chunk_texts up))
       @ [Error err] \<and>
     stream_state_of (start up []) = Errored err \<and>
     Close \<notin> set (start up []) \<and>
     Enqueue (encode done_event) \<notin> set (start up []) \<and>
     (controller_calls_of (before @ ControllerCall (Error err) # after) = start up [] \<longrightarrow>
        rs_delivered (run_stream before) @ rs_queue (run_stream before) =
          map (\<lambda>t. encode (sse_event t)) (filter (\<lambda>t. t \<noteq> []) (chunk_texts up)) \<and>
        rs_state (run_stream (before @ ControllerCall (Error err) # after)) = Errored err \<and>
        rs_delivered (run_stream (before @ ControllerCall (Error err) # after)) =
          rs_delivered (run_stream before) \<and>
        rs_queue (run_stream (before @ ControllerCall (Error err) # after)) = [] \<and>
        rs_type_errors (run_stream (before @ ControllerCall (Error err) # after)) = 0 \<and>
        encode done_event
          \<notin> set (rs_delivered (run_stream (before @ ControllerCall (Error err) # after))))"
proof (intro impI conjI)
  let ?chunks = "map (\<lambda>t. encode (sse_event t)) (filter (\<lambda>t. t \<noteq> []) (chunk_texts up))"
  let ?run = "run_stream (before @ ControllerCall (Error err) # after)"
  assume r: "raised up = Some err"
  then show s: "start up [] =
       map (\<lambda>t. Enqueue (encode (sse_event t))) (filter (\<lambda>t. t \<noteq> []) (chunk_texts up))
       @ [Error err]"
    by (simp add: start_def for_await_eq)
  show "stream_state_of (start up []) = Errored err"
    unfolding s map_enqueue_events by (rule stream_state_errored)
  show "Close \<notin> set (start up [])" unfolding s by auto
  show "Enqueue (encode done_event) \<notin> set (start up [])"
    unfolding s by (auto simp: done_not_sse_event)
  assume "controller_calls_of (before @ ControllerCall (Error err) # after) = start up []"
  then have "controller_calls_of before @ Error err # controller_calls_of after =
      map Enqueue ?chunks @ [Error err]"
    by (simp add: controller_calls_of_append s)
  moreover have "Error err \<notin> set (map Enqueue ?chunks)" by auto
  ultimately have ba: "controller_calls_of before = map Enqueue ?chunks \<and>
      controller_calls_of after = []"
    by (rule split_at_last_call)
  then have b: "controller_calls_of before = map Enqueue ?chunks"
    and a: "controller_calls_of after = []" by simp_all
  note e = error_after_enqueues [OF b a, of err]
  note p = enqueue_phase [OF b]
  from p show d: "rs_delivered (run_stream before) @ rs_queue (run_stream before) = ?chunks"
    by blast
  show "rs_state ?run = Errored err" by (simp add: e)
  show "rs_delivered ?run = rs_delivered (run_stream before)" by (simp add: e)
  show "rs_queue ?run = []" by (simp add: e)
  from p show "rs_type_errors ?run = 0" by (simp add: e)
  have "encode done_event
      \<notin> set (rs_delivered (run_stream before) @ rs_queue (run_stream before))"
    unfolding d by (auto simp: done_not_sse_event)
  then have "encode done_event \<notin> set (rs_delivered (run_stream before))" by simp
  then show "encode done_event \<notin> set (rs_delivered ?run)" by (simp add: e)
qed

theorem start_on_upstream_error_witness:
  "raised he_llo_then_error = Some 7 \<and>
   controller_calls_of (read_between @ ControllerCall (Error 7) # [ClientRead]) =
     start he_llo_then_error [] \<and>
   rs_delivered (run_stream read_between) = [encode (sse_event (js ''He''))] \<and>
   rs_queue (run_stream read_between) = [encode (sse_event (js ''llo''))] \<and>
   rs_state (run_stream (read_between @ ControllerCall (Error 7) # [ClientRead])) = Errored 7 \<and>
   rs_delivered (run_stream (read_between @ ControllerCall (Error 7) # [ClientRead])) =
     [encode (sse_event (js ''He''))] \<and>
   rs_queue (run_stream (read_between @ ControllerCall (Error 7) # [ClientRead])) = [] \<and>
   stream_state_of (start he_llo_then_error []) = Errored 7"
proof -
  have r: "raised he_llo_then_error = Some 7" by (simp add: he_llo_then_error_def)
  have n: "js ''He'' \<noteq> []" "js ''llo'' \<noteq> []" by (simp_all add: js_def)
  then have s: "start he_llo_then_error [] =
      [Enqueue (encode (sse_event (js ''He''))), Enqueue (encode (sse_event (js ''llo''))),
       Error 7]" by (simp add: he_llo_then_error_def start_def)
  have c: "controller_calls_of (read_between @ ControllerCall (Error 7) # [ClientRead]) =
     start he_llo_then_error []" unfolding s by (simp add: read_between_def)
  have b: "rs_delivered (run_stream read_between) = [encode (sse_event (js ''He''))]"
    "rs_queue (run_stream read_between) = [encode (sse_event (js ''llo''))]"
    by (simp_all add: read_between_def stream_eval)
  from start_on_upstream_error [of he_llo_then_error 7 read_between "[ClientRead]"] r c
  have "rs_state (run_stream (read_between @ ControllerCall (Error 7) # [ClientRead])) = Errored 7"
    and "rs_delivered (run_stream (read_between @ ControllerCall (Error 7) # [ClientRead])) =
      rs_delivered (run_stream read_between)"
    and "rs_queue (run_stream (read_between @ ControllerCall (Error 7) # [ClientRead])) = []"
    and "stream_state_of (start he_llo_then_error []) = Errored 7" by blast+
  with r c b show ?thesis by simp
qed

text \<open>
  C9. The worked example. For the history system, user \<^verbatim>\<open>hi\<close>, and three
  assistant messages that are one fenced block each, all five entries are kept, in order
  and with their roles; the two most recent assistant messages are exempt and unchanged,
  exactly one assistant message is left to strip, and its content becomes the empty
  string. With a model name that does not hold \<open>gemini\<close>, these five messages are what
  Provider B is sent.
\<close>

theorem example_history_selection:
  "cap_messages (optimizeMessagesForTokens example_history) =
     [\<lparr>role = System, content = js ''sys''\<rparr>,
      \<lparr>role = User, content = js ''hi''\<rparr>,
      \<lparr>role = Assistant, content = []\<rparr>,
      \<lparr>role = Assistant, content = js ''```b```''\<rparr>,
      \<lparr>role = Assistant, content = js ''```c```''\<rparr>] \<and>
   among_two_latest_assistants example_history 3 \<and>
   among_two_latest_assistants example_history 4 \<and>
   length (filter (\<lambda>i. role (example_history ! i) = Assistant
                        \<and> \<not> among_two_latest_assistants example_history i)
                  [0 ..< length example_history]) = 1 \<and>
   trim (replace_fences (js ''```a```'')) = [] \<and>
   provider_b_calls
     (fst (POST example_world \<lparr>messageId = js ''m4'', model = js ''llama-3''\<rparr>)) =
     [together_request_of (js ''llama-3'')
        [\<lparr>role = System, content = js ''sys''\<rparr>,
         \<lparr>role = User, content = js ''hi''\<rparr>,
         \<lparr>role = Assistant, content = []\<rparr>,
         \<lparr>role = Assistant, content = js ''```b```''\<rparr>,
         \<lparr>role = Assistant, content = js ''```c```''\<rparr>]]"
proof (intro conjI)
  show "cap_messages (optimizeMessagesForTokens example_history) =
     [\<lparr>role = System, content = js ''sys''\<rparr>,
      \<lparr>role = User, content = js ''hi''\<rparr>,
      \<lparr>role = Assistant, content = []\<rparr>,
      \<lparr>role = Assistant, content = js ''```b```''\<rparr>,
      \<lparr>role = Assistant, content = js ''```c```''\<rparr>]" by (rule example_selected)
  show "among_two_latest_assistants example_history 3"
    "among_two_latest_assistants example_history 4"
    by (simp_all add: among_two_latest_assistants_def example_history_def)
  show "length (filter (\<lambda>i. role (example_history ! i) = Assistant
                        \<and> \<not> among_two_latest_assistants example_history i)
                  [0 ..< length example_history]) = 1"
    by (simp add: among_two_latest_assistants_def example_history_def upt_rec)
  show "trim (replace_fences (js ''```a```'')) = []" by (simp add: js_eval)
  let ?r = "\<lparr>messageId = js ''m4'', model = js ''llama-3''\<rparr>"
  have "fst (POST example_world ?r) =
     [DbFindUnique (messageId ?r), DbFindMany (js ''c1'') 4,
      CallProviderB
        (together_request_of (model ?r) (cap_messages (optimizeMessagesForTokens example_history)))]"
    using POST_together [of example_world ?r _ example_history]
      example_findUnique example_findMany example_includes(2) by simp
  then show "provider_b_calls (fst (POST example_world ?r)) =
     [together_request_of (js ''llama-3'')
        [\<lparr>role = System, content = js ''sys''\<rparr>,
         \<lparr>role = User, content = js ''hi''\<rparr>,
         \<lparr>role = Assistant, content = []\<rparr>,
         \<lparr>role = Assistant, content = js ''```b```''\<rparr>,
         \<lparr>role = Assistant, content = js ''```c```''\<rparr>]]"
    by (simp add: example_selected)
qed

text \<open>
  C10. The requested model on the two paths. Every call of Provider A names the model
  \<^verbatim>\<open>gemini-1.5-pro\<close>, whatever the request asked for, and every call of Provider B names
  the requested model string as it is. Two requests for the same message whose model
  strings both hold the marker are handled alike.
\<close>

theorem gemini_model_is_fixed:
  "(\<forall>r \<in> set (provider_a_calls (fst (POST w req))). gemini_model r = js ''gemini-1.5-pro'') \<and>
   (\<forall>r \<in> set (provider_b_calls (fst (POST w req))). together_model r = model req) \<and>
   (findUnique (messageTable w) (messageId req) = Some message \<and>
    parse_rows (findMany (messageTable w) (row_chatId message) (row_position message))
      = Inr parsed \<longrightarrow>
      (includes_str (model req) (js ''gemini'') \<longrightarrow>
         map gemini_model (provider_a_calls (fst (POST w req))) = [js ''gemini-1.5-pro'']) \<and>
      (\<not> includes_str (model req) (js ''gemini'') \<longrightarrow>
         map together_model (provider_b_calls (fst (POST w req))) = [model req])) \<and>
   (includes_str (model req) (js ''gemini'') \<and> includes_str (model req') (js ''gemini'') \<and>
    messageId req' = messageId req \<longrightarrow> POST w req' = POST w req)"
proof -
  have reach: "(includes_str (model req) (js ''gemini'') \<longrightarrow>
         provider_a_calls (fst (POST w req)) =
           [gemini_request_of (cap_messages (optimizeMessagesForTokens p))] \<and>
         provider_b_calls (fst (POST w req)) = []) \<and>
      (\<not> includes_str (model req) (js ''gemini'') \<longrightarrow>
         provider_b_calls (fst (POST w req)) =
           [together_request_of (model req) (cap_messages (optimizeMessagesForTokens p))] \<and>
         provider_a_calls (fst (POST w req)) = [])"
    if "findUnique (messageTable w) (messageId req) = Some m"
      and "parse_rows (findMany (messageTable w) (row_chatId m) (row_position m)) = Inr p"
    for m p
    using that by (cases "includes_str (model req) (js ''gemini'')")
      (simp_all add: POST_gemini POST_together)
  have fields: "gemini_model (gemini_request_of xs) = js ''gemini-1.5-pro''"
    "together_model (together_request_of (model req) xs) = model req" for xs
    by (simp_all add: gemini_request_of_def together_request_of_def)
  have all: "(\<forall>r \<in> set (provider_a_calls (fst (POST w req))). gemini_model r = js ''gemini-1.5-pro'') \<and>
   (\<forall>r \<in> set (provider_b_calls (fst (POST w req))). together_model r = model req)"
    using POST_trace_cases [of w req]
  proof
    assume "\<exists>message parsed.
      findUnique (messageTable w) (messageId req) = Some message \<and>
      parse_rows (findMany (messageTable w) (row_chatId message) (row_position message))
        = Inr parsed"
    then obtain m p where "findUnique (messageTable w) (messageId req) = Some m"
      "parse_rows (findMany (messageTable w) (row_chatId m) (row_position m)) = Inr p" by blast
    from reach [OF this] show ?thesis
      by (cases "includes_str (model req) (js ''gemini'')") (simp_all add: fields)
  next
    assume "provider_a_calls (fst (POST w req)) = [] \<and> provider_b_calls (fst (POST w req)) = []"
    then show ?thesis by simp
  qed
  have one: "(includes_str (model req) (js ''gemini'') \<longrightarrow>
         map gemini_model (provider_a_calls (fst (POST w req))) = [js ''gemini-1.5-pro'']) \<and>
      (\<not> includes_str (model req) (js ''gemini'') \<longrightarrow>
         map together_model (provider_b_calls (fst (POST w req))) = [model req])"
    if "findUnique (messageTable w) (messageId req) = Some message"
      and "parse_rows (findMany (messageTable w) (row_chatId message) (row_position message))
        = Inr parsed"
    using reach [OF that] by (cases "includes_str (model req) (js ''gemini'')") (simp_all add: fields)
  from all one POST_model_only_dispatches [of req req' w] show ?thesis by blast
qed

theorem gemini_model_is_fixed_witness:
  "findUnique (messageTable example_world) (js ''m4'') =
     Some \<lparr>row_id = js ''m4'', row_chatId = js ''c1'', row_position = 4,
           row_role = js ''assistant'', row_content = js ''```c```''\<rparr> \<and>
   parse_rows (findMany (messageTable example_world) (js ''c1'') 4) = Inr example_history \<and>
   includes_str (js ''gemini-2.0-flash'') (js ''gemini'') \<and>
   map gemini_model (provider_a_calls
     (fst (POST example_world \<lparr>messageId = js ''m4'', model = js ''gemini-2.0-flash''\<rparr>))) =
     [js ''gemini-1.5-pro''] \<and>
   js ''gemini-2.0-flash'' \<noteq> js ''gemini-1.5-pro'' \<and>
   \<not> includes_str (js ''llama-3'') (js ''gemini'') \<and>
   map together_model (provider_b_calls
     (fst (POST example_world \<lparr>messageId = js ''m4'', model = js ''llama-3''\<rparr>))) =
     [js ''llama-3'']"
proof -
  let ?row = "\<lparr>row_id = js ''m4'', row_chatId = js ''c1'', row_position = 4,
           row_role = js ''assistant'', row_content = js ''```c```''\<rparr>"
  let ?g = "\<lparr>messageId = js ''m4'', model = js ''gemini-2.0-flash''\<rparr>"
  let ?t = "\<lparr>messageId = js ''m4'', model = js ''llama-3''\<rparr>"
  have f: "findUnique (messageTable example_world) (messageId ?g) = Some ?row"
    "findUnique (messageTable example_world) (messageId ?t) = Some ?row"
    by (simp_all add: example_findUnique)
  have p: "parse_rows (findMany (messageTable example_world) (row_chatId ?row) (row_position ?row))
      = Inr example_history" by (simp add: example_findMany)
  have i: "includes_str (model ?g) (js ''gemini'')" "\<not> includes_str (model ?t) (js ''gemini'')"
    by (simp_all add: example_includes)
  from gemini_model_is_fixed [of example_world ?g ?row example_history] f(1) p i(1)
  have 1: "map gemini_model (provider_a_calls (fst (POST example_world ?g))) =
      [js ''gemini-1.5-pro'']" by blast
  from gemini_model_is_fixed [of example_world ?t ?row example_history] f(2) p i(2)
  have "map together_model (provider_b_calls (fst (POST example_world ?t))) = [model ?t]"
    by blast
  then have 2: "map together_model (provider_b_calls (fst (POST example_world ?t))) =
      [js ''llama-3'']" by simp
  have 3: "js ''gemini-2.0-flash'' \<noteq> js ''gemini-1.5-pro''" by (simp add: js_def)
  from 1 2 3 example_findUnique example_findMany example_includes show ?thesis by simp
qed

end
